theory Spec2Isabelle
  imports Main
begin


section \<open>Python strings\<close>

text \<open>
  Strings are lists of characters with code points below 256.  The helpers follow the
  Python \<open>str\<close> methods the scraper calls.
\<close>

definition startswith :: "string \<Rightarrow> string \<Rightarrow> bool" where
  "startswith s p = (take (length p) s = p)"

definition endswith :: "string \<Rightarrow> string \<Rightarrow> bool" where
  "endswith s p = (length p \<le> length s \<and> drop (length s - length p) s = p)"

text \<open>\<open>kw in s\<close>: \<open>kw\<close> occurs in \<open>s\<close> as a contiguous substring.\<close>

fun py_in :: "string \<Rightarrow> string \<Rightarrow> bool" where
  "py_in kw [] = (kw = [])"
| "py_in kw (c # cs) = (startswith (c # cs) kw \<or> py_in kw cs)"

text \<open>\<open>s.find(kw)\<close>: the index of the first occurrence, \<open>None\<close> for Python's \<open>-1\<close>.\<close>

fun py_find :: "string \<Rightarrow> string \<Rightarrow> nat option" where
  "py_find [] kw = (if kw = [] then Some 0 else None)"
| "py_find (c # cs) kw =
     (if startswith (c # cs) kw then Some 0 else map_option Suc (py_find cs kw))"

definition code :: "char \<Rightarrow> nat" where
  "code c = of_char c"

definition is_upper_ascii :: "char \<Rightarrow> bool" where
  "is_upper_ascii c = (65 \<le> code c \<and> code c \<le> 90)"

definition is_lower_ascii :: "char \<Rightarrow> bool" where
  "is_lower_ascii c = (97 \<le> code c \<and> code c \<le> 122)"

definition is_ascii_alpha :: "char \<Rightarrow> bool" where
  "is_ascii_alpha c = (is_upper_ascii c \<or> is_lower_ascii c)"

definition is_ascii_digit :: "char \<Rightarrow> bool" where
  "is_ascii_digit c = (48 \<le> code c \<and> code c \<le> 57)"

text \<open>\<open>str.isspace\<close> and the regex class \<open>\s\<close> agree below 256.\<close>

definition py_isspace :: "char \<Rightarrow> bool" where
  "py_isspace c = ((9 \<le> code c \<and> code c \<le> 13) \<or> (28 \<le> code c \<and> code c \<le> 32)
                    \<or> code c = 133 \<or> code c = 160)"

text \<open>\<open>str.lower\<close> on one character: ASCII and Latin-1 capitals move by 32.\<close>

definition lower_char :: "char \<Rightarrow> char" where
  "lower_char c = (if is_upper_ascii c \<or> (192 \<le> code c \<and> code c \<le> 222 \<and> code c \<noteq> 215)
                   then char_of (code c + 32) else c)"

definition py_lower :: "string \<Rightarrow> string" where
  "py_lower s = map lower_char s"

definition py_strip :: "string \<Rightarrow> string" where
  "py_strip s = rev (dropWhile py_isspace (rev (dropWhile py_isspace s)))"

text \<open>\<open>s.rstrip('/')\<close> removes every trailing slash.\<close>

definition rstrip_slash :: "string \<Rightarrow> string" where
  "rstrip_slash s = rev (dropWhile (\<lambda>c. c = CHR ''/'') (rev s))"

section \<open>The world outside the scraper\<close>

text \<open>
  A \<open>datetime\<close> value: a calendar date and the time of day in microseconds since
  midnight.  \<open>datetime(y, m, d)\<close> is midnight of that day.
\<close>

record datetime =
  dt_year :: int
  dt_month :: int
  dt_day :: int
  dt_micros :: int

text \<open>
  What the scraper reads of a rendered page: the anchors \<open>soup.find_all('a', href=True)\<close>
  in document order, each with its raw \<open>href\<close> attribute and its \<open>get_text()\<close>, and
  \<open>page.inner_text("body")\<close>.
\<close>

record page =
  anchors :: "(string \<times> string) list"
  body_text :: string

text \<open>
  Everything the scraper takes from outside its own code is a field of the environment:
  \<^item> \<open>goto\<close>: the browser; \<open>None\<close> when \<open>page.goto\<close>, \<open>page.content\<close> or
    \<open>page.inner_text\<close> raises;
  \<^item> \<open>now\<close>: \<open>datetime.now()\<close>, read while the n-th counted page is processed;
  \<^item> \<open>urljoin\<close>: \<open>urllib.parse.urljoin\<close>, \<open>None\<close> when it raises \<open>ValueError\<close>;
  \<^item> \<open>set_order\<close>: the order in which \<open>list(set(links))\<close> enumerates the set built
    from \<open>links\<close> (it depends on string hashes, which Python randomises per process);
  \<^item> \<open>field_extractors_ok\<close>: whether the eight field extractors, run in a row on the
    page fetched from the given URL, all return; \<open>False\<close> when one of them raises (as
    \<open>_extract_structured_address\<close> does on a JSON-LD address with a numeric field);
  \<^item> \<open>bracketed_host_ok\<close>: whether \<open>urllib.parse._check_bracketed_host\<close> accepts
    the text between \<open>[\<close> and \<open>]\<close> of a network location (it calls the
    \<open>ipaddress\<close> module).
\<close>

record env =
  goto :: "string \<Rightarrow> page option"
  now :: "int \<Rightarrow> datetime"
  urljoin :: "string \<Rightarrow> string \<Rightarrow> string option"
  set_order :: "string list \<Rightarrow> string list"
  field_extractors_ok :: "string \<Rightarrow> bool"
  bracketed_host_ok :: "string \<Rightarrow> bool"

section \<open>URL parsing: \<open>urllib.parse.urlparse\<close>\<close>

text \<open>
  The library function, as CPython 3.11 implements it (\<open>Lib/urllib/parse.py\<close>), with
  the default arguments \<open>scheme=''\<close> and \<open>allow_fragments=True\<close> the scraper uses.
  \<open>_checknetloc\<close> never raises on characters below 256 and is left out.
\<close>

record parse_result =
  scheme :: string
  netloc :: string
  path :: string
  params :: string
  query :: string
  fragment :: string

text \<open>\<open>url.lstrip(_WHATWG_C0_CONTROL_OR_SPACE)\<close>\<close>

definition lstrip_c0 :: "string \<Rightarrow> string" where
  "lstrip_c0 s = dropWhile (\<lambda>c. code c \<le> 32) s"

text \<open>Tab, line feed and carriage return are removed wherever they stand.\<close>

definition unsafe_char :: "char \<Rightarrow> bool" where
  "unsafe_char c = (code c = 9 \<or> code c = 10 \<or> code c = 13)"

definition remove_unsafe :: "string \<Rightarrow> string" where
  "remove_unsafe s = filter (\<lambda>c. \<not> unsafe_char c) s"

definition scheme_char :: "char \<Rightarrow> bool" where
  "scheme_char c = (is_ascii_alpha c \<or> is_ascii_digit c
                     \<or> c = CHR ''+'' \<or> c = CHR ''-'' \<or> c = CHR ''.'')"

text \<open>
  \<open>i = url.find(':')\<close>; with \<open>i > 0\<close>, an ASCII letter first and only scheme characters
  before the colon, the scheme is \<open>url[:i].lower()\<close> and the rest is \<open>url[i+1:]\<close>.
\<close>

definition split_scheme :: "string \<Rightarrow> string \<times> string" where
  "split_scheme url =
     (let pre = takeWhile (\<lambda>c. c \<noteq> CHR '':'') url
      in if length pre < length url \<and> pre \<noteq> [] \<and> is_ascii_alpha (hd url)
            \<and> list_all scheme_char pre
         then (py_lower pre, drop (Suc (length pre)) url)
         else ([], url))"

definition netloc_delim :: "char \<Rightarrow> bool" where
  "netloc_delim c = (c = CHR ''/'' \<or> c = CHR ''?'' \<or> c = CHR ''#'')"

text \<open>\<open>_splitnetloc(url, 2)\<close>: from index 2 to the first of \<open>/\<close>, \<open>?\<close>, \<open>#\<close>.\<close>

definition splitnetloc :: "string \<Rightarrow> string \<times> string" where
  "splitnetloc url = (takeWhile (\<lambda>c. \<not> netloc_delim c) (drop 2 url),
                      dropWhile (\<lambda>c. \<not> netloc_delim c) (drop 2 url))"

text \<open>
  The two bracket checks of \<open>urlsplit\<close>; \<open>False\<close> stands for \<open>ValueError\<close>.  The
  bracketed host is \<open>netloc.partition('[')[2].partition(']')[0]\<close>.
\<close>

definition netloc_brackets_ok :: "env \<Rightarrow> string \<Rightarrow> bool" where
  "netloc_brackets_ok E nl =
     (let has_open = CHR ''['' \<in> set nl; has_close = CHR '']'' \<in> set nl
      in if (has_open \<and> \<not> has_close) \<or> (has_close \<and> \<not> has_open) then False
         else if has_open \<and> has_close
         then bracketed_host_ok E
                (takeWhile (\<lambda>c. c \<noteq> CHR '']'') (drop 1 (dropWhile (\<lambda>c. c \<noteq> CHR ''['') nl)))
         else True)"

text \<open>\<open>s.split(c, 1)\<close> for a string that holds \<open>c\<close>.\<close>

definition split_first :: "char \<Rightarrow> string \<Rightarrow> string \<times> string" where
  "split_first c s = (takeWhile (\<lambda>x. x \<noteq> c) s, drop 1 (dropWhile (\<lambda>x. x \<noteq> c) s))"

definition urlsplit :: "env \<Rightarrow> string \<Rightarrow> parse_result option" where
  "urlsplit E url0 =
     (let url = remove_unsafe (lstrip_c0 url0);
          (sch, url1) = split_scheme url;
          (nl, url2) = (if take 2 url1 = ''//'' then splitnetloc url1 else ([], url1))
      in if \<not> netloc_brackets_ok E nl then None
         else
           let (url3, frag) = (if CHR ''#'' \<in> set url2 then split_first CHR ''#'' url2
                               else (url2, []));
               (url4, q) = (if CHR ''?'' \<in> set url3 then split_first CHR ''?'' url3
                            else (url3, []))
           in Some \<lparr>scheme = sch, netloc = nl, path = url4, params = [],
                     query = q, fragment = frag\<rparr>)"

definition uses_params :: "string list" where
  "uses_params = ['''', ''ftp'', ''hdl'', ''prospero'', ''http'', ''imap'', ''https'',
                  ''shttp'', ''rtsp'', ''rtspu'', ''sip'', ''sips'', ''mms'', ''sftp'', ''tel'']"

text \<open>
  \<open>_splitparams\<close>, called only on a string that holds a semicolon: the parameters start
  at the first semicolon of the last path segment.
\<close>

definition splitparams :: "string \<Rightarrow> string \<times> string" where
  "splitparams url =
     (let k = (if CHR ''/'' \<in> set url
               then length url - Suc (length (takeWhile (\<lambda>c. c \<noteq> CHR ''/'') (rev url)))
               else 0);
          seg = drop k url
      in if CHR '';'' \<notin> set seg then (url, [])
         else let i = k + length (takeWhile (\<lambda>c. c \<noteq> CHR '';'') seg)
              in (take i url, drop (Suc i) url))"

definition urlparse :: "env \<Rightarrow> string \<Rightarrow> parse_result option" where
  "urlparse E url =
     (case urlsplit E url of
        None \<Rightarrow> None
      | Some r \<Rightarrow>
          if scheme r \<in> set uses_params \<and> CHR '';'' \<in> set (path r)
          then (let (p, ps) = splitparams (path r) in Some (r\<lparr>path := p, params := ps\<rparr>))
          else Some r)"

section \<open>The scraper: URL helpers\<close>

text \<open>
  \<open>ProgramScraper._normalize_url\<close>: scheme, \<open>://\<close>, network location and the path
  without trailing slashes, then \<open>?\<close> and the query when there is one.  Parameters
  and fragment are not written back.
\<close>

definition normalize_url :: "env \<Rightarrow> string \<Rightarrow> string option" where
  "normalize_url E url =
     (case urlparse E url of
        None \<Rightarrow> None
      | Some parsed \<Rightarrow>
          Some (scheme parsed @ ''://'' @ netloc parsed @ rstrip_slash (path parsed)
                @ (if query parsed \<noteq> [] then ''?'' @ query parsed else [])))"

section \<open>Regular expressions: \<open>re.findall\<close>\<close>

text \<open>
  The date patterns use literals, the classes \<open>\d\<close> and \<open>\s\<close> with counted greedy
  repetition, sequence, ordered alternation, the greedy \<open>?\<close>, capturing groups (never
  nested) and one negative lookahead.  \<open>rmatch r s g\<close> lists, in the order in which
  Python's backtracking matcher tries them, the ways \<open>r\<close> matches a prefix of \<open>s\<close>:
  the text left over and the groups captured so far; \<open>rmatch_each b\<close> goes on with \<open>b\<close>
  from each of the states a first part has reached.  Literals compare without regard to
  case (\<open>re.IGNORECASE\<close>).
\<close>

datatype cls = Digit | Space

datatype regex =
    Lit string
  | Rep cls nat "nat option"
  | Seq regex regex
  | Alt regex regex
  | Opt regex
  | Grp regex
  | NotAhead regex

fun in_cls :: "cls \<Rightarrow> char \<Rightarrow> bool" where
  "in_cls Digit c = is_ascii_digit c"
| "in_cls Space c = py_isspace c"

text \<open>A literal against the start of the text, character by character, ignoring case.\<close>

fun lit_match :: "string \<Rightarrow> string \<Rightarrow> string option" where
  "lit_match [] s = Some s"
| "lit_match (c # cs) [] = None"
| "lit_match (c # cs) (x # xs) =
     (if lower_char x = lower_char c then lit_match cs xs else None)"

fun rmatch :: "regex \<Rightarrow> string \<Rightarrow> string list \<Rightarrow> (string \<times> string list) list"
  and rmatch_each :: "regex \<Rightarrow> (string \<times> string list) list \<Rightarrow> (string \<times> string list) list"
where
  "rmatch (Lit w) s g = (case lit_match w s of None \<Rightarrow> [] | Some rest \<Rightarrow> [(rest, g)])"
| "rmatch (Rep c lo hi) s g =
     (let k = length (takeWhile (in_cls c) s);
          top = (case hi of None \<Rightarrow> k | Some b \<Rightarrow> min k b)
      in map (\<lambda>j. (drop j s, g)) (rev [lo..<Suc top]))"
| "rmatch (Seq a b) s g = rmatch_each b (rmatch a s g)"
| "rmatch (Alt a b) s g = rmatch a s g @ rmatch b s g"
| "rmatch (Opt a) s g = rmatch a s g @ [(s, g)]"
| "rmatch (Grp a) s g =
     map (\<lambda>sg. (fst sg, snd sg @ [take (length s - length (fst sg)) s])) (rmatch a s g)"
| "rmatch (NotAhead a) s g = (if rmatch a s g = [] then [(s, g)] else [])"
| "rmatch_each b [] = []"
| "rmatch_each b (sg # rest) = rmatch b (fst sg) (snd sg) @ rmatch_each b rest"

text \<open>
  \<open>re.findall(pattern, context)[0]\<close>: the groups of the leftmost match, \<open>None\<close> when
  \<open>findall\<close> returns the empty list.
\<close>

fun findall_first :: "regex \<Rightarrow> string \<Rightarrow> string list option" where
  "findall_first r [] = (case rmatch r [] [] of [] \<Rightarrow> None | sg # _ \<Rightarrow> Some (snd sg))"
| "findall_first r (c # cs) =
     (case rmatch r (c # cs) [] of [] \<Rightarrow> findall_first r cs | sg # _ \<Rightarrow> Some (snd sg))"

fun alts :: "string list \<Rightarrow> regex" where
  "alts [] = NotAhead (Lit [])"
| "alts [w] = Lit w"
| "alts (w # ws) = Alt (Lit w) (alts ws)"

fun seqs :: "regex list \<Rightarrow> regex" where
  "seqs [] = Lit []"
| "seqs [r] = r"
| "seqs (r # rs) = Seq r (seqs rs)"

section \<open>Dates\<close>

definition is_leap :: "int \<Rightarrow> bool" where
  "is_leap y = (y mod 4 = 0 \<and> (y mod 100 \<noteq> 0 \<or> y mod 400 = 0))"

definition days_in_month :: "int \<Rightarrow> int \<Rightarrow> int" where
  "days_in_month y m =
     (if m = 2 then (if is_leap y then 29 else 28)
      else if m = 4 \<or> m = 6 \<or> m = 9 \<or> m = 11 then 30 else 31)"

text \<open>\<open>datetime(year, month, day)\<close>; \<open>None\<close> is its \<open>ValueError\<close>.\<close>

definition mk_datetime :: "int \<Rightarrow> int \<Rightarrow> int \<Rightarrow> datetime option" where
  "mk_datetime y m d =
     (if 1 \<le> y \<and> y \<le> 9999 \<and> 1 \<le> m \<and> m \<le> 12 \<and> 1 \<le> d \<and> d \<le> days_in_month y m
      then Some \<lparr>dt_year = y, dt_month = m, dt_day = d, dt_micros = 0\<rparr>
      else None)"

text \<open>\<open>a >= b\<close> on datetimes.\<close>

definition dt_ge :: "datetime \<Rightarrow> datetime \<Rightarrow> bool" where
  "dt_ge a b =
     (dt_year a > dt_year b \<or> (dt_year a = dt_year b \<and>
       (dt_month a > dt_month b \<or> (dt_month a = dt_month b \<and>
         (dt_day a > dt_day b \<or> (dt_day a = dt_day b \<and> dt_micros a \<ge> dt_micros b))))))"

definition digit_char :: "int \<Rightarrow> char" where
  "digit_char n = char_of (48 + nat n)"

text \<open>\<open>strftime('%Y-%m-%d')\<close>\<close>

definition strftime_ymd :: "datetime \<Rightarrow> string" where
  "strftime_ymd d =
     [digit_char (dt_year d div 1000), digit_char (dt_year d div 100 mod 10),
      digit_char (dt_year d div 10 mod 10), digit_char (dt_year d mod 10), CHR ''-'',
      digit_char (dt_month d div 10), digit_char (dt_month d mod 10), CHR ''-'',
      digit_char (dt_day d div 10), digit_char (dt_day d mod 10)]"

text \<open>
  \<open>str.isdigit\<close> (true of the superscripts 1, 2, 3 as well) and \<open>int(s)\<close> on the
  strings a group can hold: \<open>int\<close> raises \<open>ValueError\<close> (\<open>None\<close>) unless every
  character is an ASCII digit.
\<close>

definition py_isdigit :: "string \<Rightarrow> bool" where
  "py_isdigit s = (s \<noteq> [] \<and> list_all (\<lambda>c. is_ascii_digit c \<or> code c = 178 \<or> code c = 179
                                             \<or> code c = 185) s)"

definition py_int :: "string \<Rightarrow> int option" where
  "py_int s = (if s \<noteq> [] \<and> list_all is_ascii_digit s
               then Some (foldl (\<lambda>acc c. 10 * acc + (int (code c) - 48)) 0 s) else None)"

definition months :: "(string \<times> int) list" where
  "months = [(''january'', 1), (''jan'', 1), (''february'', 2), (''feb'', 2), (''march'', 3),
             (''mar'', 3), (''april'', 4), (''apr'', 4), (''may'', 5), (''june'', 6),
             (''jun'', 6), (''july'', 7), (''jul'', 7), (''august'', 8), (''aug'', 8),
             (''september'', 9), (''sep'', 9), (''sept'', 9), (''october'', 10), (''oct'', 10),
             (''november'', 11), (''nov'', 11), (''december'', 12), (''dec'', 12)]"

text \<open>\<open>months.get(name, 0)\<close>\<close>

definition months_get :: "string \<Rightarrow> int" where
  "months_get name = (case map_of months name of None \<Rightarrow> 0 | Some m \<Rightarrow> m)"

definition month_names :: "string list" where
  "month_names = [''january'', ''february'', ''march'', ''april'', ''may'', ''june'', ''july'',
                  ''august'', ''september'', ''october'', ''november'', ''december'', ''jan'',
                  ''feb'', ''mar'', ''apr'', ''may'', ''jun'', ''jul'', ''aug'', ''sep'', ''sept'',
                  ''oct'', ''nov'', ''dec'']"

definition day_names :: "string list" where
  "day_names = [''monday'', ''tuesday'', ''wednesday'', ''thursday'', ''friday'', ''saturday'',
                ''sunday'']"

text \<open>The pieces the six patterns share.\<close>

definition rx_day_name :: regex where
  "rx_day_name = seqs [alts day_names, Opt (Lit '',''), Rep Space 0 None]"

definition rx_month_day :: regex where
  "rx_month_day = seqs [Grp (alts month_names), Rep Space 1 None, Grp (Rep Digit 1 (Some 2)),
                        Opt (alts [''st'', ''nd'', ''rd'', ''th''])]"

definition rx_year :: regex where
  "rx_year = seqs [Opt (Lit '',''), Rep Space 0 None, Grp (Rep Digit 4 (Some 4))]"

definition rx_no_year :: regex where
  "rx_no_year = NotAhead (seqs [Rep Space 0 None, Opt (Lit '',''), Rep Space 0 None,
                                Rep Digit 4 (Some 4)])"

text \<open>The six date patterns, in the order of the list \<open>date_patterns\<close>.\<close>

definition pat_weekday_month_day_year :: regex where
  "pat_weekday_month_day_year = seqs [rx_day_name, rx_month_day, rx_year]"

definition pat_month_day_year :: regex where
  "pat_month_day_year = seqs [rx_month_day, rx_year]"

definition pat_slashes :: regex where
  "pat_slashes = seqs [Grp (Rep Digit 1 (Some 2)), Lit ''/'', Grp (Rep Digit 1 (Some 2)),
                       Lit ''/'', Grp (Rep Digit 4 (Some 4))]"

definition pat_iso :: regex where
  "pat_iso = seqs [Grp (Rep Digit 4 (Some 4)), Lit ''-'', Grp (Rep Digit 2 (Some 2)),
                   Lit ''-'', Grp (Rep Digit 2 (Some 2))]"

definition pat_weekday_month_day :: regex where
  "pat_weekday_month_day = seqs [rx_day_name, rx_month_day, rx_no_year]"

definition pat_month_day :: regex where
  "pat_month_day = seqs [rx_month_day, rx_no_year]"

definition date_patterns :: "regex list" where
  "date_patterns = [pat_weekday_month_day_year, pat_month_day_year, pat_slashes, pat_iso,
                    pat_weekday_month_day, pat_month_day]"

text \<open>
  The tail of one round of the pattern loop: \<open>if month == 0: continue\<close>, then
  \<open>datetime(year, month, day)\<close> and the test \<open>parsed_date >= today\<close>.  \<open>None\<close> is
  "go on with the next pattern", by \<open>continue\<close> or by a caught \<open>ValueError\<close>.
\<close>

definition accept_date :: "datetime \<Rightarrow> int \<Rightarrow> int \<Rightarrow> int \<Rightarrow> datetime option" where
  "accept_date today y m d =
     (if m = 0 then None
      else case mk_datetime y m d of
             None \<Rightarrow> None
           | Some parsed_date \<Rightarrow> if dt_ge parsed_date today then Some parsed_date else None)"

text \<open>The \<open>try\<close> block of \<open>parse_date_from_context\<close> on the groups of the first match.\<close>

definition date_of_match :: "datetime \<Rightarrow> string list \<Rightarrow> datetime option" where
  "date_of_match today mt =
     (case mt of
        [a, b, c] \<Rightarrow>
          if py_isdigit a \<and> length a = 4 then
            (case (py_int a, py_int b, py_int c) of
               (Some y, Some m, Some d) \<Rightarrow> accept_date today y m d
             | _ \<Rightarrow> None)
          else if py_isdigit c \<and> length c = 4 then
            (if py_isdigit a then
               (case (py_int a, py_int b, py_int c) of
                  (Some m, Some d, Some y) \<Rightarrow> accept_date today y m d
                | _ \<Rightarrow> None)
             else
               (case (py_int b, py_int c) of
                  (Some d, Some y) \<Rightarrow> accept_date today y (months_get (py_lower a)) d
                | _ \<Rightarrow> None))
          else None
      | [a, b] \<Rightarrow>
          (case py_int b of
             None \<Rightarrow> None
           | Some d \<Rightarrow>
               let m = months_get (py_lower a) in
               (case mk_datetime (dt_year today) m d of
                  None \<Rightarrow> None
                | Some test_date \<Rightarrow>
                    accept_date today
                      (if dt_ge test_date today then dt_year today else dt_year today + 1) m d))
      | _ \<Rightarrow> None)"

fun parse_date_loop :: "datetime \<Rightarrow> regex list \<Rightarrow> string \<Rightarrow> datetime option" where
  "parse_date_loop today [] context = None"
| "parse_date_loop today (pattern # rest) context =
     (case findall_first pattern context of
        None \<Rightarrow> parse_date_loop today rest context
      | Some mt \<Rightarrow>
          (case date_of_match today mt of
             Some d \<Rightarrow> Some d
           | None \<Rightarrow> parse_date_loop today rest context))"

definition parse_date_from_context :: "datetime \<Rightarrow> string \<Rightarrow> datetime option" where
  "parse_date_from_context today context = parse_date_loop today date_patterns context"

section \<open>The scraper\<close>

text \<open>
  The lines the scraper prints to \<open>stderr\<close>, as events: \<open>Crawling n u d\<close> is
  "Crawling (n/max): u", printed right before \<open>page.goto(u)\<close>, with the depth \<open>d\<close> of the
  queue entry added; \<open>ErrorCrawling u\<close> is "Error crawling u"; \<open>ExtractingMain u\<close> is
  "Extracting main page data...", printed right before the field extractors run, with the
  URL of the page they are given added; the last three belong to the registration-page
  fallback.
\<close>

datatype event =
    Crawling int string int
  | ErrorCrawling string
  | ExtractingMain string
  | FoundAllDates
  | CheckingRegistrationUrl string
  | NavigatingRegistration string
  | ErrorRegistration string

text \<open>
  The attributes of a \<open>ProgramScraper\<close>.  Of the \<open>data\<close> dictionary the record keeps the
  four entries the crawl logic reads or writes; the entries only the field extractors write
  (name, description, contact, address, hours, pricing, categories) are not modelled: of
  the field extractors the model keeps the event \<open>ExtractingMain\<close>, printed right before
  they run, and whether they return or raise (\<open>field_extractors_ok\<close>).
\<close>

record scraper =
  url :: string
  domain :: string
  base_url :: string
  max_pages :: int
  max_depth :: int
  visited_urls :: "string set"
  pages_crawled :: int
  registration_url :: "string option"
  re_enrollment_date :: "string option"
  new_registration_date :: "string option"
  crawled_pages :: "string list"
  stderr :: "event list"

text \<open>\<open>ProgramScraper.__init__\<close>; \<open>None\<close> when \<open>urlparse(url)\<close> raises.\<close>

definition ProgramScraper_init :: "env \<Rightarrow> string \<Rightarrow> int \<Rightarrow> int \<Rightarrow> scraper option" where
  "ProgramScraper_init E u mp md =
     (case urlparse E u of
        None \<Rightarrow> None
      | Some parsed \<Rightarrow>
          Some \<lparr>url = u, domain = netloc parsed,
                base_url = scheme parsed @ ''://'' @ netloc parsed,
                max_pages = mp, max_depth = md, visited_urls = {}, pages_crawled = 0,
                registration_url = None, re_enrollment_date = None,
                new_registration_date = None, crawled_pages = [], stderr = []\<rparr>)"

text \<open>Python truthiness of a dictionary entry that is \<open>None\<close> or a string.\<close>

definition truthy :: "string option \<Rightarrow> bool" where
  "truthy v = (case v of None \<Rightarrow> False | Some s \<Rightarrow> s \<noteq> [])"

text \<open>\<open>_is_same_domain\<close>; \<open>None\<close> when \<open>urlparse\<close> raises.\<close>

definition is_same_domain :: "env \<Rightarrow> scraper \<Rightarrow> string \<Rightarrow> bool option" where
  "is_same_domain E S u =
     (case urlparse E u of
        None \<Rightarrow> None
      | Some parsed \<Rightarrow> Some (netloc parsed = domain S \<or> netloc parsed = []))"

definition skip_extensions :: "string list" where
  "skip_extensions = [''.pdf'', ''.jpg'', ''.jpeg'', ''.png'', ''.gif'', ''.svg'', ''.css'', ''.js'',
                      ''.zip'', ''.doc'', ''.docx'', ''.xls'', ''.xlsx'', ''.mp3'', ''.mp4'', ''.avi'']"

definition is_valid_page_url :: "string \<Rightarrow> bool" where
  "is_valid_page_url u =
     (if u = [] then False
      else if list_ex (startswith u) [''mailto:'', ''tel:'', ''javascript:'', ''data:'', ''#'']
      then False
      else if list_ex (endswith (py_lower u)) skip_extensions then False
      else True)"

text \<open>
  One round of the loop of \<open>_extract_internal_links\<close> from the same-domain test on: the
  links the round appends, \<open>None\<close> when \<open>urlparse\<close> raises.
\<close>

definition same_domain_link :: "env \<Rightarrow> scraper \<Rightarrow> string \<Rightarrow> string list option" where
  "same_domain_link E S full_url =
     (case is_same_domain E S full_url of
        None \<Rightarrow> None
      | Some False \<Rightarrow> Some []
      | Some True \<Rightarrow>
          (case normalize_url E full_url of
             None \<Rightarrow> None
           | Some normalized \<Rightarrow>
               Some (if normalized \<notin> visited_urls S then [normalized] else [])))"

definition links_of_anchor :: "env \<Rightarrow> scraper \<Rightarrow> string \<Rightarrow> string \<times> string \<Rightarrow> string list option"
where
  "links_of_anchor E S current_url anchor =
     (let href = py_strip (fst anchor)
      in if \<not> is_valid_page_url href then Some []
         else if startswith href ''/'' then same_domain_link E S (base_url S @ href)
         else if startswith href ''http'' then same_domain_link E S href
         else if \<not> list_ex (startswith href) [''mailto:'', ''tel:'', ''javascript:'']
         then (case urljoin E current_url href of
                 None \<Rightarrow> None
               | Some full_url \<Rightarrow> same_domain_link E S full_url)
         else Some [])"

fun links_loop :: "env \<Rightarrow> scraper \<Rightarrow> string \<Rightarrow> (string \<times> string) list \<Rightarrow> string list option"
where
  "links_loop E S current_url [] = Some []"
| "links_loop E S current_url (anchor # rest) =
     (case links_of_anchor E S current_url anchor of
        None \<Rightarrow> None
      | Some new \<Rightarrow>
          (case links_loop E S current_url rest of
             None \<Rightarrow> None
           | Some others \<Rightarrow> Some (new @ others)))"

text \<open>\<open>_extract_internal_links\<close>: the loop, then \<open>list(set(links))\<close>.\<close>

definition extract_internal_links :: "env \<Rightarrow> scraper \<Rightarrow> page \<Rightarrow> string \<Rightarrow> string list option"
where
  "extract_internal_links E S soup current_url =
     map_option (set_order E) (links_loop E S current_url (anchors soup))"

definition related_keywords :: "string list" where
  "related_keywords = [''register'', ''registration'', ''enroll'', ''enrollment'', ''sign-up'',
                       ''signup'', ''classes'', ''schedule'', ''programs'', ''sessions'',
                       ''calendar'', ''book'', ''booking'']"

definition is_registration_related :: "string \<Rightarrow> string \<Rightarrow> bool" where
  "is_registration_related u link_text =
     list_ex (\<lambda>kw. py_in kw (py_lower u) \<or> py_in kw (py_lower link_text)) related_keywords"

text \<open>
  The dictionary \<open>link_texts\<close> of \<open>_prioritize_links\<close>: every anchor's URL, resolved
  against the seed URL and normalised, mapped to its stripped text; a later anchor
  overwrites an earlier one.  \<open>None\<close> when \<open>urljoin\<close> or \<open>urlparse\<close> raises.
\<close>

fun link_texts_loop ::
  "env \<Rightarrow> scraper \<Rightarrow> (string \<times> string) list \<Rightarrow> (string \<rightharpoonup> string) \<Rightarrow> (string \<rightharpoonup> string) option"
where
  "link_texts_loop E S [] link_texts = Some link_texts"
| "link_texts_loop E S (anchor # rest) link_texts =
     (let href = py_strip (fst anchor); txt = py_strip (snd anchor)
      in case (if startswith href ''/'' then Some (base_url S @ href)
               else if startswith href ''http'' then Some href
               else urljoin E (url S) href) of
           None \<Rightarrow> None
         | Some full_url \<Rightarrow>
             (case normalize_url E full_url of
                None \<Rightarrow> None
              | Some normalized \<Rightarrow>
                  link_texts_loop E S rest (link_texts(normalized \<mapsto> txt))))"

definition prioritize_links :: "env \<Rightarrow> scraper \<Rightarrow> string list \<Rightarrow> page \<Rightarrow> string list option"
where
  "prioritize_links E S links soup =
     (case link_texts_loop E S (anchors soup) Map.empty of
        None \<Rightarrow> None
      | Some link_texts \<Rightarrow>
          (let related = (\<lambda>link. is_registration_related link
                                   (case link_texts link of None \<Rightarrow> [] | Some t \<Rightarrow> t))
           in Some (filter related links @ filter (\<lambda>link. \<not> related link) links)))"

text \<open>
  \<open>_crawl_page\<close>: the three guards, then the URL is marked visited and counted before
  the \<open>try\<close> block.  The result \<open>None\<close> is the source's \<open>(None, None, [])\<close>, returned by
  a guard or by the \<open>except\<close> branch, which any of \<open>goto\<close>, link extraction and
  prioritisation reaches by raising.
\<close>

definition crawl_page ::
  "env \<Rightarrow> scraper \<Rightarrow> string \<Rightarrow> int \<Rightarrow> (page \<times> string list) option \<times> scraper"
where
  "crawl_page E S u depth =
     (if u \<in> visited_urls S then (None, S)
      else if pages_crawled S \<ge> max_pages S then (None, S)
      else if depth > max_depth S then (None, S)
      else
        let S1 = S\<lparr>visited_urls := insert u (visited_urls S),
                   pages_crawled := pages_crawled S + 1,
                   stderr := stderr S @ [Crawling (pages_crawled S + 1) u depth]\<rparr>;
            failed = (None, S1\<lparr>stderr := stderr S1 @ [ErrorCrawling u]\<rparr>)
        in case goto E u of
             None \<Rightarrow> failed
           | Some soup \<Rightarrow>
               (case extract_internal_links E S1 soup u of
                  None \<Rightarrow> failed
                | Some links \<Rightarrow>
                    (case prioritize_links E S1 links soup of
                       None \<Rightarrow> failed
                     | Some prioritized_links \<Rightarrow>
                         (Some (soup, prioritized_links),
                          S1\<lparr>crawled_pages := crawled_pages S1 @ [u]\<rparr>))))"

section \<open>Registration URL and dates\<close>

definition registration_keywords :: "string list" where
  "registration_keywords = [''register'', ''enroll'', ''sign-up'', ''signup'', ''sign up'']"

text \<open>
  The anchor loop of \<open>_extract_registration_info\<close>.  \<open>None\<close> when \<open>urlparse(self.url)\<close>
  raises (it cannot for a scraper that \<open>__init__\<close> has built).
\<close>

fun extract_registration_url :: "env \<Rightarrow> scraper \<Rightarrow> (string \<times> string) list \<Rightarrow> scraper option"
where
  "extract_registration_url E S [] = Some S"
| "extract_registration_url E S (link # rest) =
     (let href = py_lower (fst link); link_text = py_lower (snd link)
      in if startswith href ''mailto:'' \<or> startswith href ''tel:''
         then extract_registration_url E S rest
         else if list_ex (\<lambda>kw. py_in kw href \<or> py_in kw link_text) registration_keywords
         then
           (if startswith (fst link) ''/''
            then (case urlparse E (url S) of
                    None \<Rightarrow> None
                  | Some parsed \<Rightarrow>
                      Some (S\<lparr>registration_url :=
                                Some (scheme parsed @ ''://'' @ netloc parsed @ fst link)\<rparr>))
            else if \<not> startswith (fst link) ''http''
            then (if CHR '':'' \<in> set (fst link) then extract_registration_url E S rest
                  else Some (S\<lparr>registration_url :=
                                 Some (rstrip_slash (url S) @ ''/'' @ fst link)\<rparr>))
            else Some (S\<lparr>registration_url := Some (fst link)\<rparr>))
         else extract_registration_url E S rest)"

definition re_enrollment_keywords :: "string list" where
  "re_enrollment_keywords = [''re-enrollment'', ''reenrollment'', ''re enrollment'',
     ''current students'', ''returning students'', ''current families'',
     ''priority registration'', ''early registration'']"

definition new_registration_keywords :: "string list" where
  "new_registration_keywords = [''open enrollment'', ''new enrollment'', ''new students'',
     ''new families'', ''general registration'', ''public registration'',
     ''returning students begins'', ''registration opens'', ''registration begins'',
     ''enrollment opens'', ''enrollment begins'', ''sign up'', ''register by'', ''enroll by'']"

text \<open>
  The keyword loops: for each keyword in order, its first occurrence in the lowered text,
  the context \<open>text_lower[max(0, idx - before) : idx + after]\<close>, and the first keyword
  whose context gives a date wins.  The category loops have \<open>before = 0\<close> and
  \<open>after = 300\<close>.
\<close>

fun search_keywords :: "datetime \<Rightarrow> string \<Rightarrow> nat \<Rightarrow> nat \<Rightarrow> string list \<Rightarrow> datetime option"
where
  "search_keywords today text_lower before after [] = None"
| "search_keywords today text_lower before after (keyword # rest) =
     (case py_find text_lower keyword of
        None \<Rightarrow> search_keywords today text_lower before after rest
      | Some keyword_idx \<Rightarrow>
          (case parse_date_from_context today
                  (take (keyword_idx + after - (keyword_idx - before))
                     (drop (keyword_idx - before) text_lower)) of
             Some found_date \<Rightarrow> Some found_date
           | None \<Rightarrow> search_keywords today text_lower before after rest))"

text \<open>
  \<open>_extract_registration_info\<close>: the registration URL, then the two dates, each assigned
  whenever its loop finds a date.
\<close>

definition extract_registration_info :: "env \<Rightarrow> scraper \<Rightarrow> page \<Rightarrow> scraper option" where
  "extract_registration_info E S soup =
     (case extract_registration_url E S (anchors soup) of
        None \<Rightarrow> None
      | Some S1 \<Rightarrow>
          let text_lower = py_lower (body_text soup);
              today = now E (pages_crawled S);
              S2 = (case search_keywords today text_lower 0 300 re_enrollment_keywords of
                      None \<Rightarrow> S1
                    | Some found_date \<Rightarrow>
                        S1\<lparr>re_enrollment_date := Some (strftime_ymd found_date)\<rparr>);
              S3 = (case search_keywords today text_lower 0 300 new_registration_keywords of
                      None \<Rightarrow> S2
                    | Some found_date \<Rightarrow>
                        S2\<lparr>new_registration_date := Some (strftime_ymd found_date)\<rparr>)
          in Some S3)"

section \<open>The crawl\<close>

text \<open>
  The block under \<open>if soup and text:\<close> in \<open>scrape\<close>: the field extractors when the
  counter stands at 1, the registration extractor, and the new queue entries.  Nothing in
  the block is inside a \<open>try\<close> of its own: \<open>None\<close> when a field extractor or the
  registration extractor raises, which ends \<open>scrape\<close> with "Scraping failed" and without
  a record.
\<close>

definition page_found ::
  "env \<Rightarrow> bool \<Rightarrow> scraper \<Rightarrow> string \<Rightarrow> int \<Rightarrow> page \<Rightarrow> string list \<Rightarrow> (string \<times> int) list
     \<Rightarrow> ((string \<times> int) list \<times> scraper) option"
where
  "page_found E crawl S current_url depth soup links to_crawl =
     (if pages_crawled S = 1 \<and> \<not> field_extractors_ok E current_url then None
      else
        let S1 = (if pages_crawled S = 1
                  then S\<lparr>stderr := stderr S @ [ExtractingMain current_url]\<rparr> else S)
        in case extract_registration_info E S1 soup of
             None \<Rightarrow> None
           | Some S2 \<Rightarrow>
               Some (if crawl \<and> depth < max_depth S2
                     then to_crawl @ map (\<lambda>link. (link, depth + 1))
                                       (filter (\<lambda>link. link \<notin> visited_urls S2) links)
                     else to_crawl,
                     S2))"

text \<open>
  One round of the \<open>while\<close> loop from the call of \<open>_crawl_page\<close> to the end of the
  block under \<open>if soup and text:\<close>.  A BeautifulSoup object is always true, so
  \<open>soup and text\<close> is false exactly for the result \<open>(None, None, [])\<close> and for an
  empty body text.
\<close>

definition visit ::
  "env \<Rightarrow> bool \<Rightarrow> string \<times> int \<Rightarrow> (string \<times> int) list \<Rightarrow> scraper
     \<Rightarrow> ((string \<times> int) list \<times> scraper) option"
where
  "visit E crawl entry to_crawl S =
     (case crawl_page E S (fst entry) (snd entry) of
        (None, S1) \<Rightarrow> Some (to_crawl, S1)
      | (Some found, S1) \<Rightarrow>
          if body_text (fst found) = [] then Some (to_crawl, S1)
          else page_found E crawl S1 (fst entry) (snd entry) (fst found) (snd found) to_crawl)"

text \<open>
  One round of the \<open>while\<close> loop: \<open>popleft\<close>, the visited test with its
  \<open>continue\<close>, the visit, and the test for both dates with its \<open>break\<close>.  The flag
  says whether the round ended in \<open>break\<close>.
\<close>

definition loop_body ::
  "env \<Rightarrow> bool \<Rightarrow> (string \<times> int) list \<Rightarrow> scraper
     \<Rightarrow> (bool \<times> (string \<times> int) list \<times> scraper) option"
where
  "loop_body E crawl to_crawl S =
     (case to_crawl of
        [] \<Rightarrow> None
      | entry # rest \<Rightarrow>
          if fst entry \<in> visited_urls S then Some (False, rest, S)
          else
            (case visit E crawl entry rest S of
               None \<Rightarrow> None
             | Some qs \<Rightarrow>
                 if truthy (re_enrollment_date (snd qs))
                    \<and> truthy (new_registration_date (snd qs))
                 then Some (True, fst qs, (snd qs)\<lparr>stderr := stderr (snd qs) @ [FoundAllDates]\<rparr>)
                 else Some (False, fst qs, snd qs)))"

text \<open>
  The \<open>while\<close> loop of \<open>scrape\<close>:
  \<open>while to_crawl and self.pages_crawled < self.max_pages\<close>; \<open>None\<close> when a round
  raises.  Its termination is proved below: every round either counts a page or shortens
  the queue.
\<close>

function scrape_loop ::
  "env \<Rightarrow> bool \<Rightarrow> (string \<times> int) list \<Rightarrow> scraper \<Rightarrow> scraper option"
where
  "scrape_loop E crawl to_crawl S =
     (if to_crawl \<noteq> [] \<and> pages_crawled S < max_pages S
      then (case loop_body E crawl to_crawl S of
              None \<Rightarrow> None
            | Some st \<Rightarrow>
                if fst st then Some (snd (snd st))
                else scrape_loop E crawl (fst (snd st)) (snd (snd st)))
      else Some S)"
  by pat_completeness auto

text \<open>
  The states of the loop, taken at the loop test: the break flag of the round before, the
  queue and the scraper.  A crawl starts with the seed URL at depth 0.
\<close>

inductive bfs_reach ::
  "env \<Rightarrow> bool \<Rightarrow> scraper \<Rightarrow> bool \<times> (string \<times> int) list \<times> scraper \<Rightarrow> bool"
  for E :: env and crawl :: bool and S0 :: scraper
where
  start: "bfs_reach E crawl S0 (False, [(url S0, 0)], S0)"
| round: "bfs_reach E crawl S0 (False, to_crawl, S) \<Longrightarrow> to_crawl \<noteq> []
          \<Longrightarrow> pages_crawled S < max_pages S \<Longrightarrow> loop_body E crawl to_crawl S = Some st
          \<Longrightarrow> bfs_reach E crawl S0 st"

section \<open>The registration-page fallback\<close>

definition page_new_registration_keywords :: "string list" where
  "page_new_registration_keywords = [''open enrollment'', ''new enrollment'', ''new students'',
     ''new families'', ''general registration'', ''public registration'',
     ''registration opens'', ''registration begins'', ''enrollment opens'',
     ''enrollment begins'', ''sign up'', ''register by'', ''enroll by'',
     ''deadline'', ''opens on'', ''begins on'', ''starts on'']"

definition general_keywords :: "string list" where
  "general_keywords = [''registration'', ''enrollment'', ''deadline'', ''opens'', ''begins'',
                       ''start'']"

text \<open>
  The three guarded passes of \<open>_scrape_registration_page\<close> over the text of the
  registration page: each runs only while its field is not set.
\<close>

definition registration_page_dates :: "datetime \<Rightarrow> string \<Rightarrow> scraper \<Rightarrow> scraper" where
  "registration_page_dates today text_lower S =
     (let S1 = (if \<not> truthy (re_enrollment_date S)
                then (case search_keywords today text_lower 0 300 re_enrollment_keywords of
                        None \<Rightarrow> S
                      | Some found_date \<Rightarrow>
                          S\<lparr>re_enrollment_date := Some (strftime_ymd found_date)\<rparr>)
                else S);
          S2 = (if \<not> truthy (new_registration_date S1)
                then (case search_keywords today text_lower 0 300
                             page_new_registration_keywords of
                        None \<Rightarrow> S1
                      | Some found_date \<Rightarrow>
                          S1\<lparr>new_registration_date := Some (strftime_ymd found_date)\<rparr>)
                else S1)
      in if \<not> truthy (new_registration_date S2)
         then (case search_keywords today text_lower 100 200 general_keywords of
                 None \<Rightarrow> S2
               | Some found_date \<Rightarrow>
                   S2\<lparr>new_registration_date := Some (strftime_ymd found_date)\<rparr>)
         else S2)"

text \<open>
  \<open>_scrape_registration_page\<close>: one \<open>page.goto\<close> of the registration URL, inside a
  \<open>try\<close> that catches everything.  It touches neither \<open>visited_urls\<close> nor
  \<open>pages_crawled\<close> nor \<open>crawled_pages\<close>.
\<close>

definition scrape_registration_page :: "env \<Rightarrow> scraper \<Rightarrow> scraper" where
  "scrape_registration_page E S =
     (case registration_url S of
        None \<Rightarrow> S
      | Some reg_url \<Rightarrow>
          if reg_url = [] then S
          else
            let S1 = S\<lparr>stderr := stderr S @ [NavigatingRegistration reg_url]\<rparr>
            in (case goto E reg_url of
                  None \<Rightarrow> S1\<lparr>stderr := stderr S1 @ [ErrorRegistration reg_url]\<rparr>
                | Some reg_page \<Rightarrow>
                    registration_page_dates (now E (pages_crawled S + 1))
                      (py_lower (body_text reg_page)) S1))"

text \<open>The test after the loop, and the call it guards.\<close>

definition registration_fallback :: "env \<Rightarrow> scraper \<Rightarrow> scraper" where
  "registration_fallback E S =
     (if truthy (registration_url S) \<and> \<not> truthy (re_enrollment_date S)
         \<and> \<not> truthy (new_registration_date S)
      then (case registration_url S of
              None \<Rightarrow> S
            | Some reg_url \<Rightarrow>
                if reg_url \<notin> visited_urls S
                then scrape_registration_page E
                       (S\<lparr>stderr := stderr S @ [CheckingRegistrationUrl reg_url]\<rparr>)
                else S)
      else S)"

text \<open>
  \<open>scrape\<close>, from the crawl on (the advisory robots.txt check and the browser start-up
  come before): \<open>None\<close> when the crawl ends in an exception.
\<close>

definition scrape :: "env \<Rightarrow> bool \<Rightarrow> scraper \<Rightarrow> scraper option" where
  "scrape E crawl S =
     map_option (registration_fallback E) (scrape_loop E crawl [(url S, 0)] S)"


section \<open>Reading a stored date\<close>

text \<open>
  The date fields hold the text \<open>strftime('%Y-%m-%d')\<close> wrote.  \<open>parse_ymd\<close> reads such a
  text back as a calendar date, and \<open>on_or_after\<close> compares two calendar dates, leaving the
  time of day aside.
\<close>

definition parse_ymd :: "string \<Rightarrow> datetime option" where
  "parse_ymd s =
     (if length s = 10 \<and> s ! 4 = CHR ''-'' \<and> s ! 7 = CHR ''-''
      then (case (py_int (take 4 s), py_int (take 2 (drop 5 s)), py_int (drop 8 s)) of
              (Some y, Some m, Some d) \<Rightarrow> mk_datetime y m d
            | _ \<Rightarrow> None)
      else None)"

definition on_or_after :: "datetime \<Rightarrow> datetime \<Rightarrow> bool" where
  "on_or_after a b =
     (dt_year a > dt_year b \<or> (dt_year a = dt_year b \<and>
       (dt_month a > dt_month b \<or> (dt_month a = dt_month b \<and> dt_day a \<ge> dt_day b))))"

definition stored_date_ok :: "datetime \<Rightarrow> string option \<Rightarrow> bool" where
  "stored_date_ok today v =
     (case v of
        None \<Rightarrow> False
      | Some s \<Rightarrow> (case parse_ymd s of None \<Rightarrow> False | Some d \<Rightarrow> on_or_after d today))"

section \<open>Example sites\<close>

text \<open>
  Concrete inputs for the examples below.  The clock stands at noon of 1 June 2025.  The
  example pages hold only hrefs that start with \<open>/\<close> or \<open>http\<close>, for which the scraper
  never calls \<open>urljoin\<close>, and no bracketed host; the field extractors return on every
  page; \<open>list(set(links))\<close> enumerates in order of first insertion unless an example says
  otherwise.
\<close>

definition noon_1_june_2025 :: datetime where
  "noon_1_june_2025 = \<lparr>dt_year = 2025, dt_month = 6, dt_day = 1, dt_micros = 43200000000\<rparr>"

definition site_env :: "(string \<Rightarrow> page option) \<Rightarrow> env" where
  "site_env web = \<lparr>goto = web, now = (\<lambda>n. noon_1_june_2025), urljoin = (\<lambda>b u. None),
                    set_order = remdups, field_extractors_ok = (\<lambda>u. True),
                    bracketed_host_ok = (\<lambda>h. False)\<rparr>"

text \<open>A scraper for \<open>http://e.org/\<close>, as \<open>__init__\<close> builds it.\<close>

definition e_org :: "int \<Rightarrow> int \<Rightarrow> scraper" where
  "e_org mp md = \<lparr>url = ''http://e.org/'', domain = ''e.org'', base_url = ''http://e.org'',
                   max_pages = mp, max_depth = md, visited_urls = {}, pages_crawled = 0,
                   registration_url = None, re_enrollment_date = None,
                   new_registration_date = None, crawled_pages = [], stderr = []\<rparr>"

text \<open>A page without anchors that announces a re-enrollment date.\<close>

definition reenroll_page :: page where
  "reenroll_page = \<lparr>anchors = [], body_text = ''Re-enrollment: Jan 5, 2030''\<rparr>"

text \<open>A site where every fetch fails.\<close>

definition no_web :: "string \<Rightarrow> page option" where
  "no_web u = None"

section \<open>Reading the log\<close>

text \<open>
  The URLs of the "Error crawling" lines, the URLs of the pages the field extractors ran
  against, and the URLs the registration-page fallback navigated to, each in order.
\<close>

fun failed_urls :: "event list \<Rightarrow> string list" where
  "failed_urls [] = []"
| "failed_urls (ErrorCrawling u # es) = u # failed_urls es"
| "failed_urls (e # es) = failed_urls es"

fun main_page_runs :: "event list \<Rightarrow> string list" where
  "main_page_runs [] = []"
| "main_page_runs (ExtractingMain u # es) = u # main_page_runs es"
| "main_page_runs (e # es) = main_page_runs es"

fun fallback_fetches :: "event list \<Rightarrow> string list" where
  "fallback_fetches [] = []"
| "fallback_fetches (NavigatingRegistration u # es) = u # fallback_fetches es"
| "fallback_fetches (e # es) = fallback_fetches es"

text \<open>The pages fetched in the crawl, with the counter and the depth of each fetch.\<close>

fun fetches :: "event list \<Rightarrow> (int \<times> string \<times> int) list" where
  "fetches [] = []"
| "fetches (Crawling n u d # es) = (n, u, d) # fetches es"
| "fetches (e # es) = fetches es"

text \<open>A home page whose only link is the link to itself, \<open>/\<close>.\<close>

definition home_page :: page where
  "home_page = \<lparr>anchors = [(''/'', ''Home'')], body_text = ''Welcome''\<rparr>"

definition home_web :: "string \<Rightarrow> page option" where
  "home_web u = (if u = ''http://e.org/'' \<or> u = ''http://e.org'' then Some home_page else None)"

text \<open>
  The seed page is usable when \<open>_crawl_page\<close> returns it (no exception in the \<open>try\<close>
  block) and its body text is not empty.
\<close>

definition seed_usable :: "env \<Rightarrow> scraper \<Rightarrow> bool" where
  "seed_usable E S0 =
     (case fst (crawl_page E S0 (url S0) 0) of
        None \<Rightarrow> False
      | Some found \<Rightarrow> body_text (fst found) \<noteq> [])"

text \<open>The scraper after the first and after the second round of the crawl of that site.\<close>

definition home_after_1 :: scraper where
  "home_after_1 = (e_org 2 1)\<lparr>visited_urls := {''http://e.org/''}, pages_crawled := 1,
       crawled_pages := [''http://e.org/''],
       stderr := [Crawling 1 ''http://e.org/'' 0, ExtractingMain ''http://e.org/'']\<rparr>"

definition home_after_2 :: scraper where
  "home_after_2 = (e_org 2 1)\<lparr>visited_urls := {''http://e.org'', ''http://e.org/''},
       pages_crawled := 2, crawled_pages := [''http://e.org/'', ''http://e.org''],
       stderr := [Crawling 1 ''http://e.org/'' 0, ExtractingMain ''http://e.org/'',
                  Crawling 2 ''http://e.org'' 1]\<rparr>"

text \<open>A seed page that loads but has no text in its body, and the scraper after its crawl.\<close>

definition blank_page :: page where
  "blank_page = \<lparr>anchors = [], body_text = []\<rparr>"

definition blank_web :: "string \<Rightarrow> page option" where
  "blank_web u = (if u = ''http://e.org/'' then Some blank_page else None)"

definition blank_after :: scraper where
  "blank_after = (e_org 2 1)\<lparr>visited_urls := {''http://e.org/''}, pages_crawled := 1,
       crawled_pages := [''http://e.org/''], stderr := [Crawling 1 ''http://e.org/'' 0]\<rparr>"

text \<open>The scraper after the crawl of a site whose seed page cannot be fetched.\<close>

definition failed_after :: scraper where
  "failed_after = (e_org 2 1)\<lparr>visited_urls := {''http://e.org/''}, pages_crawled := 1,
       stderr := [Crawling 1 ''http://e.org/'' 0, ErrorCrawling ''http://e.org/'']\<rparr>"

text \<open>
  A site of two pages.  The seed page links to \<open>/a\<close> with the text "Register" and
  announces a re-enrollment date; the page \<open>/a\<close> links to \<open>/b\<close> with the text "Enroll"
  and announces another re-enrollment date.  Then the scraper after each round of the crawl
  of that site with \<open>max_pages = 2\<close> and \<open>max_depth = 1\<close>.
\<close>

definition first_page :: page where
  "first_page = \<lparr>anchors = [(''/a'', ''Register'')],
                  body_text = ''Re-enrollment: Jan 5, 2030''\<rparr>"

definition second_page :: page where
  "second_page = \<lparr>anchors = [(''/b'', ''Enroll'')],
                   body_text = ''Re-enrollment: Feb 1, 2030''\<rparr>"

definition courses_web :: "string \<Rightarrow> page option" where
  "courses_web u = (if u = ''http://e.org/'' then Some first_page
                    else if u = ''http://e.org/a'' then Some second_page else None)"

definition courses_after_1 :: scraper where
  "courses_after_1 = (e_org 2 1)\<lparr>visited_urls := {''http://e.org/''}, pages_crawled := 1,
       registration_url := Some ''http://e.org/a'', re_enrollment_date := Some ''2030-01-05'',
       crawled_pages := [''http://e.org/''],
       stderr := [Crawling 1 ''http://e.org/'' 0, ExtractingMain ''http://e.org/'']\<rparr>"

definition courses_after_2 :: scraper where
  "courses_after_2 = (e_org 2 1)\<lparr>visited_urls := {''http://e.org/a'', ''http://e.org/''},
       pages_crawled := 2,
       registration_url := Some ''http://e.org/b'', re_enrollment_date := Some ''2030-02-01'',
       crawled_pages := [''http://e.org/'', ''http://e.org/a''],
       stderr := [Crawling 1 ''http://e.org/'' 0, ExtractingMain ''http://e.org/'',
                  Crawling 2 ''http://e.org/a'' 1]\<rparr>"

section \<open>The registration link of a page, said in words\<close>

text \<open>
  An anchor names registration when its href or its text, in lower case, contains one of
  the registration keywords and the href starts with neither \<open>mailto:\<close> nor \<open>tel:\<close>.
  The loop of \<open>_extract_registration_info\<close> passes over such an anchor when its href is
  neither site-relative nor \<open>http\<close> and holds a colon.  The URL stored for an href is the
  href itself, or the href after the origin of the seed URL, or the href after the seed URL.
\<close>

definition names_registration :: "string \<times> string \<Rightarrow> bool" where
  "names_registration link =
     (\<not> startswith (py_lower (fst link)) ''mailto:''
      \<and> \<not> startswith (py_lower (fst link)) ''tel:''
      \<and> list_ex (\<lambda>kw. py_in kw (py_lower (fst link)) \<or> py_in kw (py_lower (snd link)))
            registration_keywords)"

definition usable_href :: "string \<Rightarrow> bool" where
  "usable_href h = (startswith h ''/'' \<or> startswith h ''http'' \<or> CHR '':'' \<notin> set h)"

definition resolved_href :: "env \<Rightarrow> scraper \<Rightarrow> string \<Rightarrow> string option" where
  "resolved_href E S h =
     (if startswith h ''/''
      then map_option (\<lambda>parsed. scheme parsed @ ''://'' @ netloc parsed @ h) (urlparse E (url S))
      else if startswith h ''http'' then Some h
      else Some (rstrip_slash (url S) @ ''/'' @ h))"

text \<open>
  A site for the registration-page fallback: the seed page links to \<open>/a\<close> with the text
  "Register" and announces no date; the page \<open>/a\<close> says when the programme starts.  Then
  the scraper after the only round of the crawl with \<open>max_pages = 1\<close>, and the record
  \<open>scrape\<close> returns.
\<close>

definition plain_page :: page where
  "plain_page = \<lparr>anchors = [(''/a'', ''Register'')], body_text = ''Welcome''\<rparr>"

definition dates_page :: page where
  "dates_page = \<lparr>anchors = [], body_text = ''Starts 3/1/2030''\<rparr>"

definition signup_web :: "string \<Rightarrow> page option" where
  "signup_web u = (if u = ''http://e.org/'' then Some plain_page
                   else if u = ''http://e.org/a'' then Some dates_page else None)"

definition signup_after_1 :: scraper where
  "signup_after_1 = (e_org 1 1)\<lparr>visited_urls := {''http://e.org/''}, pages_crawled := 1,
       registration_url := Some ''http://e.org/a'', crawled_pages := [''http://e.org/''],
       stderr := [Crawling 1 ''http://e.org/'' 0, ExtractingMain ''http://e.org/'']\<rparr>"

definition signup_final :: scraper where
  "signup_final = (e_org 1 1)\<lparr>visited_urls := {''http://e.org/''}, pages_crawled := 1,
       registration_url := Some ''http://e.org/a'', new_registration_date := Some ''2030-03-01'',
       crawled_pages := [''http://e.org/''],
       stderr := [Crawling 1 ''http://e.org/'' 0, ExtractingMain ''http://e.org/'',
                  CheckingRegistrationUrl ''http://e.org/a'',
                  NavigatingRegistration ''http://e.org/a'']\<rparr>"

text \<open>
  The registration link of a crawled page, for a scraper with the given seed: none when
  the page has no body text (the extractor is not run on it) or no anchor that names
  registration with a usable href.  \<open>latest_link\<close> picks, from the links of a list of
  pages, the link of the last page that has one.
\<close>

definition page_registration_link :: "env \<Rightarrow> scraper \<Rightarrow> string \<Rightarrow> string option" where
  "page_registration_link E S u =
     (case goto E u of
        None \<Rightarrow> None
      | Some soup \<Rightarrow>
          if body_text soup = [] then None
          else (case find (\<lambda>link. names_registration link \<and> usable_href (fst link))
                       (anchors soup) of
                  None \<Rightarrow> None
                | Some link \<Rightarrow> resolved_href E S (fst link)))"

fun latest_link :: "string option list \<Rightarrow> string option" where
  "latest_link [] = None"
| "latest_link (x # xs) = (case latest_link xs of None \<Rightarrow> x | Some v \<Rightarrow> Some v)"

section \<open>Evaluating characters\<close>

text \<open>
  The character tests on a character given by its bits, for computing with concrete text.
\<close>

lemma code_Char:
  "code (Char b0 b1 b2 b3 b4 b5 b6 b7) =
     of_bool b0 + 2 * of_bool b1 + 4 * of_bool b2 + 8 * of_bool b3 + 16 * of_bool b4
     + 32 * of_bool b5 + 64 * of_bool b6 + 128 * of_bool b7"
  by (simp add: code_def)

lemma lower_char_Char:
  "lower_char (Char b0 b1 b2 b3 b4 b5 b6 b7) =
     (if (b6 \<and> \<not> b5 \<and> \<not> b7 \<and> (b0 \<or> b1 \<or> b2 \<or> b3 \<or> b4) \<and> \<not> (b4 \<and> b3 \<and> (b2 \<or> (b1 \<and> b0))))
         \<or> (b7 \<and> b6 \<and> \<not> b5 \<and> \<not> (b0 \<and> b1 \<and> b2 \<and> \<not> b3 \<and> b4) \<and> \<not> (b0 \<and> b1 \<and> b2 \<and> b3 \<and> b4))
      then Char b0 b1 b2 b3 b4 True b6 b7 else Char b0 b1 b2 b3 b4 b5 b6 b7)"
  by (cases b0; cases b1; cases b2; cases b3; cases b4; cases b5; cases b6; cases b7;
      simp add: lower_char_def is_upper_ascii_def code_def char_of_eq_iff)

section \<open>Accepted dates\<close>

lemma mk_datetime_valid:
  "mk_datetime y m d = Some p \<Longrightarrow> mk_datetime (dt_year p) (dt_month p) (dt_day p) = Some p"
  by (auto simp: mk_datetime_def split: if_splits)

lemma accept_date_Some:
  "accept_date today y m d = Some p \<Longrightarrow>
     dt_ge p today \<and> mk_datetime (dt_year p) (dt_month p) (dt_day p) = Some p"
  by (auto simp: accept_date_def split: if_splits option.splits dest: mk_datetime_valid)

lemma date_of_match_Some:
  "date_of_match today mt = Some p \<Longrightarrow>
     dt_ge p today \<and> mk_datetime (dt_year p) (dt_month p) (dt_day p) = Some p"
  unfolding date_of_match_def
  by (auto split: list.splits if_splits option.splits prod.splits
           dest!: accept_date_Some simp: Let_def)

lemma parse_date_loop_Some:
  "parse_date_loop today ps ctx = Some p \<Longrightarrow>
     dt_ge p today \<and> mk_datetime (dt_year p) (dt_month p) (dt_day p) = Some p"
  by (induction ps) (auto split: option.splits dest: date_of_match_Some)

lemma parse_date_from_context_Some:
  "parse_date_from_context today ctx = Some p \<Longrightarrow>
     dt_ge p today \<and> mk_datetime (dt_year p) (dt_month p) (dt_day p) = Some p"
  unfolding parse_date_from_context_def by (rule parse_date_loop_Some)

lemma search_keywords_Some:
  "search_keywords today txt before after kws = Some p \<Longrightarrow>
     dt_ge p today \<and> mk_datetime (dt_year p) (dt_month p) (dt_day p) = Some p"
  by (induction kws) (auto split: option.splits dest: parse_date_from_context_Some)

lemma dt_ge_on_or_after: "dt_ge a b \<Longrightarrow> on_or_after a b"
  by (auto simp: dt_ge_def on_or_after_def)

lemma digit_char_props:
  "0 \<le> k \<Longrightarrow> k \<le> 9 \<Longrightarrow> is_ascii_digit (digit_char k) \<and> int (code (digit_char k)) - 48 = k"
  by (auto simp: digit_char_def is_ascii_digit_def code_def nat_add_distrib)

lemma digit_char_not_dash: "0 \<le> k \<Longrightarrow> k \<le> 9 \<Longrightarrow> digit_char k \<noteq> CHR ''-''"
  using digit_char_props[of k] by (auto simp: is_ascii_digit_def code_def)

lemma py_int_digits4:
  assumes "0 \<le> a" "a \<le> 9" "0 \<le> b" "b \<le> 9" "0 \<le> c" "c \<le> 9" "0 \<le> e" "e \<le> 9"
  shows "py_int [digit_char a, digit_char b, digit_char c, digit_char e]
           = Some (1000 * a + 100 * b + 10 * c + e)"
  using assms digit_char_props[of a] digit_char_props[of b] digit_char_props[of c]
        digit_char_props[of e]
  by (simp add: py_int_def)

lemma py_int_digits2:
  assumes "0 \<le> a" "a \<le> 9" "0 \<le> b" "b \<le> 9"
  shows "py_int [digit_char a, digit_char b] = Some (10 * a + b)"
  using assms digit_char_props[of a] digit_char_props[of b]
  by (simp add: py_int_def)

lemma days_in_month_le: "days_in_month y m \<le> 31"
  by (simp add: days_in_month_def)

lemma decimal4: "1000 * ((y::int) div 1000) + 100 * (y div 100 mod 10) + 10 * (y div 10 mod 10) + y mod 10 = y"
proof -
  define a where "a = y div 10"
  define b where "b = a div 10"
  have e1: "y div 100 = b" unfolding a_def b_def by (simp add: zdiv_zmult2_eq[symmetric])
  have e2: "y div 1000 = b div 10" unfolding a_def b_def by (simp add: zdiv_zmult2_eq[symmetric])
  have "y = 10 * a + y mod 10" "a = 10 * b + a mod 10" "b = 10 * (b div 10) + b mod 10"
    unfolding a_def b_def by simp_all
  then show ?thesis unfolding e1 e2 a_def[symmetric] by linarith
qed

lemma div_bounds: "0 \<le> (y::int) \<Longrightarrow> y < k * 10 \<Longrightarrow> 0 < k \<Longrightarrow> 0 \<le> y div k \<and> y div k \<le> 9"
proof -
  assume a: "0 \<le> y" "y < k * 10" "0 < k"
  have "y = k * (y div k) + y mod k" by simp
  moreover have "0 \<le> y mod k" using a by simp
  ultimately have "k * (y div k) < k * 10" using a by linarith
  then have "y div k < 10" using a by (simp add: mult_less_cancel_left_pos)
  moreover have "0 \<le> y div k" using a by (simp add: pos_imp_zdiv_nonneg_iff)
  ultimately show ?thesis by simp
qed

lemma decimal4_bounds: "1 \<le> (y::int) \<Longrightarrow> y \<le> 9999 \<Longrightarrow> 0 \<le> y div 1000 \<and> y div 1000 \<le> 9"
  using div_bounds[of y 1000] by simp

lemma mod10_bounds: "0 \<le> (x::int) mod 10 \<and> x mod 10 \<le> 9"
  using pos_mod_bound[of 10 x] pos_mod_sign[of 10 x] by linarith

lemma strftime_year:
  assumes "1 \<le> y" "y \<le> 9999"
  shows "py_int [digit_char (y div 1000), digit_char (y div 100 mod 10),
                   digit_char (y div 10 mod 10), digit_char (y mod 10)] = Some y"
proof -
  have b: "0 \<le> y div 1000" "y div 1000 \<le> 9" using decimal4_bounds[OF assms] by blast+
  have "py_int [digit_char (y div 1000), digit_char (y div 100 mod 10),
                   digit_char (y div 10 mod 10), digit_char (y mod 10)]
        = Some (1000 * (y div 1000) + 100 * (y div 100 mod 10) + 10 * (y div 10 mod 10) + y mod 10)"
    by (rule py_int_digits4) (use b mod10_bounds in blast)+
  then show ?thesis by (simp only: decimal4)
qed

lemma decimal2: "10 * ((m::int) div 10) + m mod 10 = m"
  by simp

lemma strftime_two:
  assumes "0 \<le> m" "m \<le> 99"
  shows "py_int [digit_char (m div 10), digit_char (m mod 10)] = Some m"
proof -
  have b: "0 \<le> m div 10" "m div 10 \<le> 9" using assms div_bounds[of m 10] by simp_all
  have "py_int [digit_char (m div 10), digit_char (m mod 10)] = Some (10 * (m div 10) + m mod 10)"
    by (rule py_int_digits2) (use b mod10_bounds in blast)+
  then show ?thesis by (simp only: decimal2)
qed

lemma parse_ymd_strftime:
  assumes "mk_datetime (dt_year p) (dt_month p) (dt_day p) = Some p"
  shows "parse_ymd (strftime_ymd p) = Some p"
proof -
  let ?y = "dt_year p" and ?m = "dt_month p" and ?d = "dt_day p"
  from assms have r: "1 \<le> ?y" "?y \<le> 9999" "1 \<le> ?m" "?m \<le> 12" "1 \<le> ?d" "?d \<le> 31"
    using days_in_month_le[of ?y ?m] by (auto simp: mk_datetime_def split: if_splits)
  have "py_int [digit_char (?y div 1000), digit_char (?y div 100 mod 10),
                   digit_char (?y div 10 mod 10), digit_char (?y mod 10)] = Some ?y"
       "py_int [digit_char (?m div 10), digit_char (?m mod 10)] = Some ?m"
       "py_int [digit_char (?d div 10), digit_char (?d mod 10)] = Some ?d"
    using r by (simp_all add: strftime_year strftime_two)
  moreover have "digit_char (?m div 10) \<noteq> CHR ''-''" if False using that by simp
  ultimately show ?thesis
    using assms by (simp add: parse_ymd_def strftime_ymd_def)
qed

lemma stored_date_ok_strftime:
  "dt_ge p today \<and> mk_datetime (dt_year p) (dt_month p) (dt_day p) = Some p
     \<Longrightarrow> stored_date_ok today (Some (strftime_ymd p))"
  by (simp add: stored_date_ok_def parse_ymd_strftime dt_ge_on_or_after)

section \<open>Dates are never in the past\<close>

lemmas char_eval = code_Char is_upper_ascii_def is_lower_ascii_def is_ascii_alpha_def
  is_ascii_digit_def py_isspace_def lower_char_Char py_lower_def startswith_def endswith_def

lemmas rx_eval = pat_weekday_month_day_year_def pat_month_day_year_def pat_slashes_def
  pat_iso_def pat_weekday_month_day_def pat_month_day_def
  rx_day_name_def rx_month_day_def rx_year_def rx_no_year_def
  month_names_def day_names_def Let_def

lemma march_p1: "findall_first pat_weekday_month_day_year ''march 1, 2020'' = None"
  by (simp add: char_eval rx_eval)

lemma march_p2: "findall_first pat_month_day_year ''march 1, 2020''
                   = Some [''march'', ''1'', ''2020'']"
  by (simp add: char_eval rx_eval)

lemma march_p3: "findall_first pat_slashes ''march 1, 2020'' = None"
  by (simp add: char_eval rx_eval)

lemma march_p4: "findall_first pat_iso ''march 1, 2020'' = None"
  by (simp add: char_eval rx_eval)

lemma march_p5: "findall_first pat_weekday_month_day ''march 1, 2020'' = None"
  by (simp add: char_eval rx_eval)

lemma march_p6: "findall_first pat_month_day ''march 1, 2020'' = None"
  by (simp add: char_eval rx_eval)

lemma march_2020_rejected:
  "dt_year today = 2025 \<Longrightarrow> parse_date_from_context today ''march 1, 2020'' = None"
  by (simp add: parse_date_from_context_def date_patterns_def march_p1 march_p2 march_p3
        march_p4 march_p5 march_p6 date_of_match_def py_isdigit_def py_int_def char_eval
        accept_date_def mk_datetime_def days_in_month_def dt_ge_def months_get_def months_def
        del: findall_first.simps)

lemma extract_registration_url_frame:
  "extract_registration_url E S as = Some S' \<Longrightarrow> S' = S\<lparr>registration_url := registration_url S'\<rparr>"
  by (induction as) (auto simp: Let_def split: if_splits option.splits)

lemma extract_registration_info_dates:
  assumes "extract_registration_info E S soup = Some S'"
  shows "(re_enrollment_date S' = re_enrollment_date S
            \<or> stored_date_ok (now E (pages_crawled S)) (re_enrollment_date S'))
       \<and> (new_registration_date S' = new_registration_date S
            \<or> stored_date_ok (now E (pages_crawled S)) (new_registration_date S'))"
proof -
  from assms obtain S1 where s1: "extract_registration_url E S (anchors soup) = Some S1"
    by (auto simp: extract_registration_info_def split: option.splits)
  from extract_registration_url_frame[OF s1]
  have f: "re_enrollment_date S1 = re_enrollment_date S"
          "new_registration_date S1 = new_registration_date S"
    by (metis scraper.select_convs scraper.surjective scraper.update_convs)+
  show ?thesis
    using assms s1 f
    by (auto simp: extract_registration_info_def Let_def split: option.splits
             dest!: search_keywords_Some intro: stored_date_ok_strftime)
qed

lemma registration_page_dates_ok:
  "(re_enrollment_date (registration_page_dates today txt S) = re_enrollment_date S
      \<or> stored_date_ok today (re_enrollment_date (registration_page_dates today txt S)))
   \<and> (new_registration_date (registration_page_dates today txt S) = new_registration_date S
      \<or> stored_date_ok today (new_registration_date (registration_page_dates today txt S)))"
  by (auto simp: registration_page_dates_def Let_def split: option.splits
           dest!: search_keywords_Some intro: stored_date_ok_strftime)

subsection \<open>A page that announces a date\<close>

lemma reenroll_p1:
  "findall_first pat_weekday_month_day_year ''re-enrollment: jan 5, 2030'' = None"
  by (simp add: char_eval rx_eval)

lemma reenroll_p2:
  "findall_first pat_month_day_year ''re-enrollment: jan 5, 2030'' = Some [''jan'', ''5'', ''2030'']"
  by (simp add: char_eval rx_eval)

lemmas date_eval = date_of_match_def py_isdigit_def py_int_def accept_date_def mk_datetime_def
  days_in_month_def is_leap_def dt_ge_def months_get_def months_def

lemma reenroll_parse:
  "parse_date_from_context noon_1_june_2025 ''re-enrollment: jan 5, 2030''
     = Some \<lparr>dt_year = 2030, dt_month = 1, dt_day = 5, dt_micros = 0\<rparr>"
  by (simp add: parse_date_from_context_def date_patterns_def reenroll_p1 reenroll_p2
        date_eval char_eval noon_1_june_2025_def del: findall_first.simps)

lemma reenroll_search_re:
  "search_keywords noon_1_june_2025 ''re-enrollment: jan 5, 2030'' 0 300 re_enrollment_keywords
     = Some \<lparr>dt_year = 2030, dt_month = 1, dt_day = 5, dt_micros = 0\<rparr>"
  by (simp add: re_enrollment_keywords_def startswith_def reenroll_parse)

lemma reenroll_search_new:
  "search_keywords noon_1_june_2025 ''re-enrollment: jan 5, 2030'' 0 300 new_registration_keywords
     = None"
  by (simp add: new_registration_keywords_def startswith_def)

lemma reenroll_page_lower: "py_lower (body_text reenroll_page) = ''re-enrollment: jan 5, 2030''"
  by (simp add: reenroll_page_def char_eval)

lemma reenroll_page_anchors: "anchors reenroll_page = []"
  by (simp add: reenroll_page_def)

lemma strftime_5_jan_2030:
  "strftime_ymd \<lparr>dt_year = 2030, dt_month = 1, dt_day = 5, dt_micros = 0\<rparr> = ''2030-01-05''"
  by (simp add: strftime_ymd_def digit_char_def char_of_eq_iff)

lemma reenroll_extract:
  "now E (pages_crawled S) = noon_1_june_2025 \<Longrightarrow>
   extract_registration_info E S reenroll_page = Some (S\<lparr>re_enrollment_date := Some ''2030-01-05''\<rparr>)"
  by (simp add: extract_registration_info_def Let_def reenroll_page_lower reenroll_search_re
        reenroll_search_new strftime_5_jan_2030 reenroll_page_anchors)

text \<open>
  C3.  Whatever the date extraction stores into \<open>re_enrollment_date\<close> or
  \<open>new_registration_date\<close>, on a crawled page (\<open>extract_registration_info\<close>) or on the
  registration page (\<open>registration_page_dates\<close>), reads back as a calendar date that is
  not before the current date: after a call each field either is what it was or holds
  such a date.  A date that \<open>parse_date_from_context\<close> returns is never before
  \<open>datetime.now()\<close>, and the context "march 1, 2020", read in 2025, yields no date.
\<close>

theorem stored_dates_not_before_today:
  "(extract_registration_info E S soup = Some S' \<longrightarrow>
      (re_enrollment_date S' = re_enrollment_date S
         \<or> stored_date_ok (now E (pages_crawled S)) (re_enrollment_date S'))
    \<and> (new_registration_date S' = new_registration_date S
         \<or> stored_date_ok (now E (pages_crawled S)) (new_registration_date S')))
   \<and> (re_enrollment_date (registration_page_dates today text R) = re_enrollment_date R
         \<or> stored_date_ok today (re_enrollment_date (registration_page_dates today text R)))
   \<and> (new_registration_date (registration_page_dates today text R) = new_registration_date R
         \<or> stored_date_ok today (new_registration_date (registration_page_dates today text R)))
   \<and> (parse_date_from_context today ctx = Some found \<longrightarrow> dt_ge found today)
   \<and> (dt_year today = 2025 \<longrightarrow> parse_date_from_context today ''march 1, 2020'' = None)"
  using extract_registration_info_dates[of E S soup "S'"]
        registration_page_dates_ok[of today "text" R]
        parse_date_from_context_Some[of today ctx found]
        march_2020_rejected[of today]
  by blast

theorem stored_dates_not_before_today_witness:
  "extract_registration_info (site_env no_web) (e_org 10 2) reenroll_page
     = Some ((e_org 10 2)\<lparr>re_enrollment_date := Some ''2030-01-05''\<rparr>)
   \<and> stored_date_ok noon_1_june_2025 (Some ''2030-01-05'')
   \<and> parse_date_from_context noon_1_june_2025 ''re-enrollment: jan 5, 2030''
       = Some \<lparr>dt_year = 2030, dt_month = 1, dt_day = 5, dt_micros = 0\<rparr>
   \<and> dt_ge \<lparr>dt_year = 2030, dt_month = 1, dt_day = 5, dt_micros = 0\<rparr> noon_1_june_2025
   \<and> dt_year noon_1_june_2025 = 2025
   \<and> parse_date_from_context noon_1_june_2025 ''march 1, 2020'' = None"
proof -
  have n: "now (site_env no_web) (pages_crawled (e_org 10 2)) = noon_1_june_2025"
    by (simp add: site_env_def)
  have y: "dt_year noon_1_june_2025 = 2025"
    by (simp add: noon_1_june_2025_def)
  note ex = reenroll_extract[OF n]
  show ?thesis
    using stored_dates_not_before_today[of "site_env no_web" "e_org 10 2" reenroll_page
            "(e_org 10 2)\<lparr>re_enrollment_date := Some ''2030-01-05''\<rparr>" noon_1_june_2025
            "''x''" "e_org 10 2" "''re-enrollment: jan 5, 2030''"
            "\<lparr>dt_year = 2030, dt_month = 1, dt_day = 5, dt_micros = 0\<rparr>"]
          ex n y reenroll_parse
    by (simp add: e_org_def)
qed

section \<open>The loop terminates\<close>

lemma extract_registration_info_frame:
  assumes "extract_registration_info E S soup = Some S'"
  shows "\<exists>r a b. S' = S\<lparr>registration_url := r, re_enrollment_date := a, new_registration_date := b\<rparr>"
proof -
  from assms obtain S1 where s1: "extract_registration_url E S (anchors soup) = Some S1"
    by (auto simp: extract_registration_info_def split: option.splits)
  from extract_registration_url_frame[OF s1] obtain r where r: "S1 = S\<lparr>registration_url := r\<rparr>"
    by blast
  have "\<exists>a. X = S\<lparr>registration_url := r, re_enrollment_date := a\<rparr>"
    if "X = S1 \<or> (\<exists>d. X = S1\<lparr>re_enrollment_date := d\<rparr>)" for X
    using that r by (cases S) auto
  moreover have "\<exists>b. Y = S\<lparr>registration_url := r, re_enrollment_date := a, new_registration_date := b\<rparr>"
    if "Y = X \<or> (\<exists>d. Y = X\<lparr>new_registration_date := d\<rparr>)"
       "X = S\<lparr>registration_url := r, re_enrollment_date := a\<rparr>" for X Y a
    using that by (cases S) auto
  ultimately show ?thesis
    using assms s1
    apply (simp add: extract_registration_info_def Let_def split: option.splits)
    apply metis+
    done
qed

lemma extract_registration_info_same:
  assumes "extract_registration_info E S soup = Some S'"
  shows "url S' = url S" "domain S' = domain S" "base_url S' = base_url S"
        "max_pages S' = max_pages S" "max_depth S' = max_depth S"
        "visited_urls S' = visited_urls S" "pages_crawled S' = pages_crawled S"
        "crawled_pages S' = crawled_pages S" "stderr S' = stderr S"
  using extract_registration_info_frame[OF assms] by auto

lemma extract_registration_url_find:
  assumes "extract_registration_url E S as = Some S'"
  shows "registration_url S' =
           (case find (\<lambda>link. names_registration link \<and> usable_href (fst link)) as of
              None \<Rightarrow> registration_url S
            | Some link \<Rightarrow> resolved_href E S (fst link))"
  using assms
proof (induction as)
  case Nil
  then show ?case by simp
next
  case (Cons link rest)
  show ?case
  proof (cases "names_registration link \<and> usable_href (fst link)")
    case True
    with Cons.prems show ?thesis
      by (auto simp: names_registration_def usable_href_def resolved_href_def Let_def
               split: if_splits option.splits)
  next
    case False
    with Cons.prems have "extract_registration_url E S rest = Some S'"
      by (auto simp: names_registration_def usable_href_def Let_def
               split: if_splits option.splits)
    from Cons.IH[OF this] False show ?thesis by auto
  qed
qed

lemma extract_registration_info_find:
  assumes "extract_registration_info E S soup = Some S'"
  shows "registration_url S' =
           (case find (\<lambda>link. names_registration link \<and> usable_href (fst link)) (anchors soup) of
              None \<Rightarrow> registration_url S
            | Some link \<Rightarrow> resolved_href E S (fst link))"
proof -
  from assms obtain S1 where s1: "extract_registration_url E S (anchors soup) = Some S1"
    by (auto simp: extract_registration_info_def split: option.splits)
  with assms have "registration_url S' = registration_url S1"
    by (auto simp: extract_registration_info_def Let_def split: option.splits)
  with extract_registration_url_find[OF s1] show ?thesis by simp
qed

lemma resolved_href_url: "url S' = url S \<Longrightarrow> resolved_href E S' h = resolved_href E S h"
  by (simp add: resolved_href_def)

lemma resolved_href_Some: "urlparse E (url S) \<noteq> None \<Longrightarrow> \<exists>r. resolved_href E S h = Some r"
  by (auto simp: resolved_href_def)

lemma crawl_page_cases:
  assumes "crawl_page E S u d = (res, S1)"
  shows "(res = None \<and> S1 = S \<and> (u \<in> visited_urls S \<or> pages_crawled S \<ge> max_pages S \<or> d > max_depth S))
       \<or> (u \<notin> visited_urls S \<and> pages_crawled S < max_pages S \<and> d \<le> max_depth S
           \<and> S1 = S\<lparr>visited_urls := insert u (visited_urls S),
                      pages_crawled := pages_crawled S + 1,
                      crawled_pages := crawled_pages S @ (if res = None then [] else [u]),
                      stderr := stderr S @ [Crawling (pages_crawled S + 1) u d]
                                  @ (if res = None then [ErrorCrawling u] else [])\<rparr>
           \<and> (\<forall>found. res = Some found \<longrightarrow> goto E u = Some (fst found)))"
  using assms
  by (cases S) (auto simp: crawl_page_def Let_def split: if_splits option.splits)

lemma page_found_same:
  assumes "page_found E c S u d soup links q = Some (q', S')"
  shows "url S' = url S" "domain S' = domain S" "base_url S' = base_url S"
        "max_pages S' = max_pages S" "max_depth S' = max_depth S"
        "visited_urls S' = visited_urls S" "pages_crawled S' = pages_crawled S"
        "crawled_pages S' = crawled_pages S"
  using assms
  by (auto simp: page_found_def Let_def split: option.splits if_splits
           dest: extract_registration_info_same)

lemma visit_cases:
  assumes "visit E c e rest S = Some (q', S2)"
  obtains (skipped) "crawl_page E S (fst e) (snd e) = (None, S2)" "q' = rest"
    | (empty) found where "crawl_page E S (fst e) (snd e) = (Some found, S2)"
        "body_text (fst found) = []" "q' = rest"
    | (found) found S1 where "crawl_page E S (fst e) (snd e) = (Some found, S1)"
        "body_text (fst found) \<noteq> []"
        "page_found E c S1 (fst e) (snd e) (fst found) (snd found) rest = Some (q', S2)"
  using assms
  by (auto simp: visit_def split: prod.splits option.splits if_splits)

lemma visit_measure:
  assumes "visit E c e rest S = Some (q', S2)"
  shows "max_pages S2 = max_pages S
       \<and> (pages_crawled S2 = pages_crawled S + 1
          \<or> (pages_crawled S2 = pages_crawled S \<and> q' = rest))"
  using assms
proof (cases rule: visit_cases)
  case skipped
  from crawl_page_cases[OF skipped(1)] skipped(2) show ?thesis by auto
next
  case (empty found)
  from crawl_page_cases[OF empty(1)] show ?thesis by auto
next
  case (found found S1)
  from crawl_page_cases[OF found(1)] page_found_same[OF found(3)] show ?thesis by auto
qed

lemma loop_body_cases:
  assumes "loop_body E c q S = Some (b, q', S')"
  obtains (seen) e where "q = e # q'" "fst e \<in> visited_urls S" "\<not> b" "S' = S"
    | (go_on) e rest where "q = e # rest" "fst e \<notin> visited_urls S" "\<not> b"
        "visit E c e rest S = Some (q', S')"
        "\<not> (truthy (re_enrollment_date S') \<and> truthy (new_registration_date S'))"
    | (stop) e rest S2 where "q = e # rest" "fst e \<notin> visited_urls S" "b"
        "visit E c e rest S = Some (q', S2)"
        "truthy (re_enrollment_date S2)" "truthy (new_registration_date S2)"
        "S' = S2\<lparr>stderr := stderr S2 @ [FoundAllDates]\<rparr>"
  using assms
  by (cases q) (auto simp: loop_body_def split: option.splits if_splits)

lemma loop_body_measure:
  assumes "loop_body E c q S = Some (b, q', S')"
  shows "max_pages S' = max_pages S
       \<and> (pages_crawled S' = pages_crawled S + 1
          \<or> (pages_crawled S' = pages_crawled S \<and> length q' < length q))"
  using assms
proof (cases rule: loop_body_cases)
  case (seen e)
  then show ?thesis by simp
next
  case (go_on e rest)
  from visit_measure[OF go_on(4)] go_on(1) show ?thesis by auto
next
  case (stop e rest S2)
  from visit_measure[OF stop(4)] stop(1,7) show ?thesis by auto
qed

termination scrape_loop
proof (relation "measures [\<lambda>(E, c, q, S). nat (max_pages S - pages_crawled S),
                           \<lambda>(E, c, q, S). length q]", goal_cases)
  case 1
  show ?case by simp
next
  case (2 E crawl to_crawl S st)
  obtain b q' S' where st: "st = (b, q', S')" by (cases st) auto
  from loop_body_measure[of E crawl to_crawl S b q' S'] 2 st
  show ?case by auto
qed

declare scrape_loop.simps [simp del]

section \<open>One round of the loop\<close>

lemma failed_urls_append [simp]: "failed_urls (xs @ ys) = failed_urls xs @ failed_urls ys"
  by (induction xs rule: failed_urls.induct) auto

lemma main_page_runs_append [simp]: "main_page_runs (xs @ ys) = main_page_runs xs @ main_page_runs ys"
  by (induction xs rule: main_page_runs.induct) auto

lemma fallback_fetches_append [simp]: "fallback_fetches (xs @ ys) = fallback_fetches xs @ fallback_fetches ys"
  by (induction xs rule: fallback_fetches.induct) auto

lemma fetches_append [simp]: "fetches (xs @ ys) = fetches xs @ fetches ys"
  by (induction xs rule: fetches.induct) auto

lemma page_found_stderr:
  assumes "page_found E c S u d soup links q = Some (q', S')"
  shows "stderr S' = stderr S @ (if pages_crawled S = 1 then [ExtractingMain u] else [])"
  using assms
  by (auto simp: page_found_def Let_def split: option.splits if_splits
           dest: extract_registration_info_same)

lemma page_found_registration_url:
  assumes "page_found E c S u d soup links q = Some (q', S')"
  shows "registration_url S' =
           (case find (\<lambda>link. names_registration link \<and> usable_href (fst link)) (anchors soup) of
              None \<Rightarrow> registration_url S
            | Some link \<Rightarrow> resolved_href E S (fst link))"
    and "pages_crawled S = 1 \<longrightarrow> field_extractors_ok E u"
proof -
  from assms show "pages_crawled S = 1 \<longrightarrow> field_extractors_ok E u"
    by (auto simp: page_found_def split: if_splits)
  from assms obtain S1 where s1: "extract_registration_info E S1 soup = Some S'"
    and k: "url S1 = url S" "registration_url S1 = registration_url S"
    by (auto simp: page_found_def Let_def split: if_splits option.splits)
  from extract_registration_info_find[OF s1] k resolved_href_url[OF k(1), of E]
  show "registration_url S' =
           (case find (\<lambda>link. names_registration link \<and> usable_href (fst link)) (anchors soup) of
              None \<Rightarrow> registration_url S
            | Some link \<Rightarrow> resolved_href E S (fst link))"
    by (simp cong: option.case_cong)
qed

text \<open>What one round of the loop does to the crawl state.\<close>

lemma loop_body_effect:
  assumes "loop_body E c q S = Some (b, q', S')"
  obtains (idle) u d where "hd q = (u, d)" "q \<noteq> []"
      "u \<in> visited_urls S \<or> max_pages S \<le> pages_crawled S \<or> max_depth S < d"
      "visited_urls S' = visited_urls S" "pages_crawled S' = pages_crawled S"
      "crawled_pages S' = crawled_pages S"
      "stderr S' = stderr S @ (if b then [FoundAllDates] else [])"
      "length q' < length q"
      "registration_url S' = registration_url S"
    | (crawled) u d res S1 where "hd q = (u, d)" "q \<noteq> []" "u \<notin> visited_urls S"
      "pages_crawled S < max_pages S" "d \<le> max_depth S"
      "crawl_page E S u d = (res, S1)"
      "visited_urls S' = insert u (visited_urls S)"
      "pages_crawled S' = pages_crawled S + 1"
      "crawled_pages S' = crawled_pages S @ (if res = None then [] else [u])"
      "res \<noteq> None \<longrightarrow> goto E u \<noteq> None"
      "stderr S' = stderr S @ [Crawling (pages_crawled S + 1) u d]
         @ (if res = None then [ErrorCrawling u] else [])
         @ (if (\<exists>found. res = Some found \<and> body_text (fst found) \<noteq> []) \<and> pages_crawled S = 0
            then [ExtractingMain u] else [])
         @ (if b then [FoundAllDates] else [])"
      "\<forall>found. res = Some found \<longrightarrow> goto E u = Some (fst found)"
      "(\<exists>found. res = Some found \<and> body_text (fst found) \<noteq> []) \<and> pages_crawled S = 0
         \<longrightarrow> field_extractors_ok E u"
      "registration_url S' =
         (case res of
            None \<Rightarrow> registration_url S
          | Some found \<Rightarrow>
              if body_text (fst found) = [] then registration_url S
              else (case find (\<lambda>link. names_registration link \<and> usable_href (fst link))
                           (anchors (fst found)) of
                      None \<Rightarrow> registration_url S
                    | Some link \<Rightarrow> resolved_href E S (fst link)))"
proof -
  have v: thesis
    if vis: "visit E c e rest S = Some (q', S2)" and q: "q = e # rest"
      and nv: "fst e \<notin> visited_urls S"
      and s': "S' = (if b then S2\<lparr>stderr := stderr S2 @ [FoundAllDates]\<rparr> else S2)"
    for e rest S2
  proof -
    obtain res S1 where cp: "crawl_page E S (fst e) (snd e) = (res, S1)"
      by (cases "crawl_page E S (fst e) (snd e)") auto
    have s2: "visited_urls S2 = visited_urls S1" "pages_crawled S2 = pages_crawled S1"
      "crawled_pages S2 = crawled_pages S1"
      "stderr S2 = stderr S1 @ (if (\<exists>found. res = Some found \<and> body_text (fst found) \<noteq> [])
                                   \<and> pages_crawled S1 = 1 then [ExtractingMain (fst e)] else [])"
      "res = None \<longrightarrow> q' = rest"
      "(\<exists>found. res = Some found \<and> body_text (fst found) \<noteq> []) \<and> pages_crawled S1 = 1
         \<longrightarrow> field_extractors_ok E (fst e)"
      using vis cp
      by (cases rule: visit_cases;
          auto dest: page_found_same page_found_stderr page_found_registration_url(2))+
    have r2: "registration_url S2 =
         (case res of
            None \<Rightarrow> registration_url S1
          | Some found \<Rightarrow>
              if body_text (fst found) = [] then registration_url S1
              else (case find (\<lambda>link. names_registration link \<and> usable_href (fst link))
                           (anchors (fst found)) of
                      None \<Rightarrow> registration_url S1
                    | Some link \<Rightarrow> resolved_href E S1 (fst link)))"
      using vis cp
      by (cases rule: visit_cases) (auto dest: page_found_registration_url(1))
    have r': "registration_url S' = registration_url S2"
      using s' by simp
    from crawl_page_cases[OF cp]
    consider (refused) "res = None" "S1 = S"
        "fst e \<in> visited_urls S \<or> max_pages S \<le> pages_crawled S \<or> max_depth S < snd e"
      | (attempted) "fst e \<notin> visited_urls S" "pages_crawled S < max_pages S"
          "snd e \<le> max_depth S"
          "S1 = S\<lparr>visited_urls := insert (fst e) (visited_urls S),
                   pages_crawled := pages_crawled S + 1,
                   crawled_pages := crawled_pages S @ (if res = None then [] else [fst e]),
                   stderr := stderr S @ [Crawling (pages_crawled S + 1) (fst e) (snd e)]
                               @ (if res = None then [ErrorCrawling (fst e)] else [])\<rparr>"
          "\<forall>found. res = Some found \<longrightarrow> goto E (fst e) = Some (fst found)"
      by blast
    then show thesis
    proof cases
      case refused
      with s2 r2 s' q show thesis by (intro idle[of "fst e" "snd e"]) auto
    next
      case attempted
      from attempted(4) have "url S1 = url S" "registration_url S1 = registration_url S"
        by simp_all
      with r2 r' resolved_href_url[of S1 S E]
      have r3: "registration_url S' =
         (case res of
            None \<Rightarrow> registration_url S
          | Some found \<Rightarrow>
              if body_text (fst found) = [] then registration_url S
              else (case find (\<lambda>link. names_registration link \<and> usable_href (fst link))
                           (anchors (fst found)) of
                      None \<Rightarrow> registration_url S
                    | Some link \<Rightarrow> resolved_href E S (fst link)))"
        by (simp cong: option.case_cong if_cong)
      show thesis
        by (rule crawled[of "fst e" "snd e" res S1]) (use attempted s2 s' q cp r3 in auto)
    qed
  qed
  from assms show thesis
  proof (cases rule: loop_body_cases)
    case (seen e)
    then show ?thesis by (intro idle[of "fst e" "snd e"]) auto
  next
    case (go_on e rest)
    then show ?thesis by (intro v[of e rest S']) auto
  next
    case (stop e rest S2)
    then show ?thesis by (intro v[of e rest S2]) auto
  qed
qed

lemma loop_body_consts:
  assumes "loop_body E c q S = Some (b, q', S')"
  shows "url S' = url S" "domain S' = domain S" "base_url S' = base_url S"
        "max_pages S' = max_pages S" "max_depth S' = max_depth S"
proof -
  have "url S2 = url S \<and> domain S2 = domain S \<and> base_url S2 = base_url S
        \<and> max_pages S2 = max_pages S \<and> max_depth S2 = max_depth S"
    if "visit E c e rest S = Some (q', S2)" for e rest S2
    using that
  proof (cases rule: visit_cases)
    case skipped
    from crawl_page_cases[OF skipped(1)] show ?thesis by auto
  next
    case (empty found)
    from crawl_page_cases[OF empty(1)] show ?thesis by auto
  next
    case (found found S1)
    from crawl_page_cases[OF found(1)] page_found_same[OF found(3)] show ?thesis by auto
  qed
  with assms show "url S' = url S" "domain S' = domain S" "base_url S' = base_url S"
        "max_pages S' = max_pages S" "max_depth S' = max_depth S"
    by (cases rule: loop_body_cases; auto)+
qed


section \<open>States of the crawl\<close>

lemma ProgramScraper_init_fields:
  assumes "ProgramScraper_init E seed mp md = Some S0"
  shows "url S0 = seed" "max_pages S0 = mp" "max_depth S0 = md" "visited_urls S0 = {}"
        "pages_crawled S0 = 0" "crawled_pages S0 = []" "stderr S0 = []"
        "registration_url S0 = None" "re_enrollment_date S0 = None"
        "new_registration_date S0 = None" "urlparse E (url S0) \<noteq> None"
  using assms by (auto simp: ProgramScraper_init_def split: option.splits)

lemma bfs_reach_consts:
  assumes "bfs_reach E c S0 st"
  shows "url (snd (snd st)) = url S0 \<and> domain (snd (snd st)) = domain S0
       \<and> base_url (snd (snd st)) = base_url S0 \<and> max_pages (snd (snd st)) = max_pages S0
       \<and> max_depth (snd (snd st)) = max_depth S0"
  using assms
proof (induction rule: bfs_reach.induct)
  case start
  show ?case by simp
next
  case (round to_crawl S st)
  obtain b q' S' where st: "st = (b, q', S')" by (cases st) auto
  from loop_body_consts[of E c to_crawl S b q' S'] round st show ?case by simp
qed

text \<open>The state \<open>scrape_loop\<close> returns is a state of the loop at which the loop test fails
  or a \<open>break\<close> has happened.\<close>

lemma scrape_loop_final:
  assumes "scrape_loop E c q S = Some S'" "bfs_reach E c S0 (False, q, S)"
  shows "\<exists>b q'. bfs_reach E c S0 (b, q', S')
               \<and> (b \<or> q' = [] \<or> \<not> pages_crawled S' < max_pages S')"
  using assms
proof (induction E c q S rule: scrape_loop.induct)
  case (1 E crawl to_crawl S)
  show ?case
  proof (cases "to_crawl \<noteq> [] \<and> pages_crawled S < max_pages S")
    case False
    with "1.prems" have "S' = S" by (simp add: scrape_loop.simps)
    with "1.prems" False show ?thesis by blast
  next
    case True
    with "1.prems" obtain st where lb: "loop_body E crawl to_crawl S = Some st"
      by (auto simp: scrape_loop.simps[of E crawl to_crawl S] split: option.splits)
    from True lb "1.prems"(2) have r: "bfs_reach E crawl S0 st"
      by (intro bfs_reach.round[of E crawl S0 to_crawl S st]) auto
    show ?thesis
    proof (cases "fst st")
      case brk: True
      with True lb "1.prems"(1) have "S' = snd (snd st)"
        by (simp add: scrape_loop.simps[of E crawl to_crawl S])
      with r brk show ?thesis by (metis prod.collapse)
    next
      case nobrk: False
      with True lb "1.prems"(1)
      have "scrape_loop E crawl (fst (snd st)) (snd (snd st)) = Some S'"
        by (simp add: scrape_loop.simps[of E crawl to_crawl S])
      moreover from r nobrk have "bfs_reach E crawl S0 (False, fst (snd st), snd (snd st))"
        by (metis prod.collapse)
      ultimately show ?thesis
        using "1.IH"[OF True lb nobrk] by blast
    qed
  qed
qed

lemma budget_inv:
  assumes "bfs_reach E c S0 st" "pages_crawled S0 \<le> max_pages S0"
    "\<forall>n u d. Crawling n u d \<notin> set (stderr S0)"
  shows "pages_crawled (snd (snd st)) \<le> max_pages S0
       \<and> (\<forall>n u d. Crawling n u d \<in> set (stderr (snd (snd st)))
             \<longrightarrow> n \<le> max_pages S0 \<and> d \<le> max_depth S0)"
  using assms
proof (induction rule: bfs_reach.induct)
  case start
  then show ?case by simp
next
  case (round to_crawl S st)
  obtain b q' S' where st: "st = (b, q', S')" by (cases st) auto
  from bfs_reach_consts[OF round(1)]
  have k: "max_pages S = max_pages S0" "max_depth S = max_depth S0" by simp_all
  from round have ih: "pages_crawled S \<le> max_pages S0"
    "\<forall>n u d. Crawling n u d \<in> set (stderr S) \<longrightarrow> n \<le> max_pages S0 \<and> d \<le> max_depth S0"
    by simp_all
  from round(4) st have "loop_body E c to_crawl S = Some (b, q', S')" by simp
  then show ?case
  proof (cases rule: loop_body_effect)
    case (idle u d)
    with ih st show ?thesis by auto
  next
    case (crawled u d res S1)
    with ih st k show ?thesis by auto
  qed
qed


section \<open>Invariants of the crawl\<close>

lemma registration_page_dates_same:
  "visited_urls (registration_page_dates t x S) = visited_urls S"
  "pages_crawled (registration_page_dates t x S) = pages_crawled S"
  "crawled_pages (registration_page_dates t x S) = crawled_pages S"
  "stderr (registration_page_dates t x S) = stderr S"
  "registration_url (registration_page_dates t x S) = registration_url S"
  by (auto simp: registration_page_dates_def Let_def split: option.splits)

lemma scrape_registration_page_same:
  "visited_urls (scrape_registration_page E S) = visited_urls S"
  "pages_crawled (scrape_registration_page E S) = pages_crawled S"
  "crawled_pages (scrape_registration_page E S) = crawled_pages S"
  "failed_urls (stderr (scrape_registration_page E S)) = failed_urls (stderr S)"
  "main_page_runs (stderr (scrape_registration_page E S)) = main_page_runs (stderr S)"
  "registration_url (scrape_registration_page E S) = registration_url S"
  by (auto simp: scrape_registration_page_def Let_def registration_page_dates_same
           split: option.splits)

lemma registration_fallback_same:
  "visited_urls (registration_fallback E S) = visited_urls S"
  "pages_crawled (registration_fallback E S) = pages_crawled S"
  "crawled_pages (registration_fallback E S) = crawled_pages S"
  "failed_urls (stderr (registration_fallback E S)) = failed_urls (stderr S)"
  "main_page_runs (stderr (registration_fallback E S)) = main_page_runs (stderr S)"
  "registration_url (registration_fallback E S) = registration_url S"
  by (auto simp: registration_fallback_def scrape_registration_page_same split: option.splits)

lemma failure_inv:
  assumes "bfs_reach E c S0 st" "visited_urls S0 = {}" "pages_crawled S0 = 0"
    "crawled_pages S0 = []" "stderr S0 = []"
  shows "set (crawled_pages (snd (snd st))) \<union> set (failed_urls (stderr (snd (snd st))))
           = visited_urls (snd (snd st))
       \<and> distinct (crawled_pages (snd (snd st)) @ failed_urls (stderr (snd (snd st))))
       \<and> int (length (crawled_pages (snd (snd st))))
           + int (length (failed_urls (stderr (snd (snd st))))) = pages_crawled (snd (snd st))
       \<and> (\<forall>u \<in> set (crawled_pages (snd (snd st))). goto E u \<noteq> None)"
  using assms
proof (induction rule: bfs_reach.induct)
  case start
  then show ?case by simp
next
  case (round to_crawl S st)
  obtain b q' S' where st: "st = (b, q', S')" by (cases st) auto
  from round have ih:
    "set (crawled_pages S) \<union> set (failed_urls (stderr S)) = visited_urls S"
    "distinct (crawled_pages S @ failed_urls (stderr S))"
    "int (length (crawled_pages S)) + int (length (failed_urls (stderr S))) = pages_crawled S"
    "\<forall>u \<in> set (crawled_pages S). goto E u \<noteq> None"
    by simp_all
  from round(4) st have "loop_body E c to_crawl S = Some (b, q', S')" by simp
  then show ?case
  proof (cases rule: loop_body_effect)
    case (idle u d)
    with ih st show ?thesis by auto
  next
    case (crawled u d res S1)
    from crawled(3) ih(1) have nu: "u \<notin> set (crawled_pages S)" "u \<notin> set (failed_urls (stderr S))"
      by auto
    show ?thesis
    proof (cases "res = None")
      case True
      with crawled ih st nu show ?thesis by auto
    next
      case False
      with crawled ih st nu show ?thesis by auto
    qed
  qed
qed

lemma take1_length: "take (Suc 0) xs = [x] \<Longrightarrow> Suc 0 \<le> length xs"
  by (cases xs) auto

lemma main_page_inv:
  assumes "bfs_reach E c S0 st" "visited_urls S0 = {}" "pages_crawled S0 = 0"
    "crawled_pages S0 = []" "stderr S0 = []" "0 < max_pages S0" "0 \<le> max_depth S0"
  shows "st = (False, [(url S0, 0)], S0)
       \<or> (1 \<le> pages_crawled (snd (snd st))
          \<and> main_page_runs (stderr (snd (snd st))) = (if seed_usable E S0 then [url S0] else [])
          \<and> (seed_usable E S0 \<longrightarrow> take 1 (crawled_pages (snd (snd st))) = [url S0]
                                    \<and> field_extractors_ok E (url S0)))"
  using assms
proof (induction rule: bfs_reach.induct)
  case start
  then show ?case by simp
next
  case (round to_crawl S st)
  obtain b q' S' where st: "st = (b, q', S')" by (cases st) auto
  from round(4) st have lb: "loop_body E c to_crawl S = Some (b, q', S')" by simp
  from round consider (first) "to_crawl = [(url S0, 0)]" "S = S0"
    | (later) "1 \<le> pages_crawled S"
        "main_page_runs (stderr S) = (if seed_usable E S0 then [url S0] else [])"
        "seed_usable E S0 \<longrightarrow> take 1 (crawled_pages S) = [url S0]
                              \<and> field_extractors_ok E (url S0)"
    by auto
  then show ?case
  proof cases
    case first
    from lb show ?thesis
    proof (cases rule: loop_body_effect)
      case (idle u d)
      with first round.prems show ?thesis by auto
    next
      case (crawled u d res S1)
      with first have cp: "crawl_page E S0 (url S0) 0 = (res, S1)" by simp
      then have su: "seed_usable E S0 \<longleftrightarrow> (\<exists>found. res = Some found \<and> body_text (fst found) \<noteq> [])"
        by (auto simp: seed_usable_def split: option.splits)
      from crawled first round.prems su st show ?thesis by auto
    qed
  next
    case later
    from lb show ?thesis
    proof (cases rule: loop_body_effect)
      case (idle u d)
      with later st show ?thesis by auto
    next
      case (crawled u d res S1)
      with later st show ?thesis by (auto dest: take1_length split: if_splits)
    qed
  qed
qed


lemma latest_link_snoc:
  "latest_link (xs @ [x]) = (case x of None \<Rightarrow> latest_link xs | Some v \<Rightarrow> Some v)"
  by (induction xs) (auto split: option.splits)

lemma registration_inv:
  assumes "bfs_reach E c S0 st" "crawled_pages S0 = []" "registration_url S0 = None"
    "urlparse E (url S0) \<noteq> None"
  shows "registration_url (snd (snd st))
           = latest_link (map (page_registration_link E S0) (crawled_pages (snd (snd st))))"
  using assms
proof (induction rule: bfs_reach.induct)
  case start
  then show ?case by simp
next
  case (round to_crawl S st)
  obtain b q' S' where st: "st = (b, q', S')" by (cases st) auto
  from round have ih: "registration_url S
                         = latest_link (map (page_registration_link E S0) (crawled_pages S))"
    by simp
  from bfs_reach_consts[OF round(1)] have u: "url S = url S0" by simp
  from resolved_href_url[OF u] have rh: "resolved_href E S h = resolved_href E S0 h" for h .
  from resolved_href_Some[OF round.prems(3)]
  have rs: "\<exists>r. resolved_href E S0 h = Some r" for h .
  from round(4) st have "loop_body E c to_crawl S = Some (b, q', S')" by simp
  then show ?case
  proof (cases rule: loop_body_effect)
    case (idle u d)
    with ih st show ?thesis by simp
  next
    case (crawled u d res S1)
    show ?thesis
    proof (cases res)
      case None
      with crawled ih st show ?thesis by simp
    next
      case (Some found)
      with crawled have g: "goto E u = Some (fst found)" by simp
      obtain r where r: "\<And>link. find (\<lambda>link. names_registration link \<and> usable_href (fst link))
                             (anchors (fst found)) = Some link
                          \<Longrightarrow> \<exists>r. resolved_href E S0 (fst link) = Some r"
        using rs by blast
      from crawled(14) Some rh
      have "registration_url S' =
              (case page_registration_link E S0 u of
                 None \<Rightarrow> registration_url S | Some v \<Rightarrow> Some v)"
        using rs
        by (auto simp: page_registration_link_def g split: option.splits)
           (metis option.distinct(1) option.inject)+
      with crawled(9) Some ih st show ?thesis
        by (simp add: latest_link_snoc cong: option.case_cong)
    qed
  qed
qed

section \<open>Example crawls\<close>

lemmas url_eval = urlparse_def urlsplit_def split_scheme_def splitnetloc_def netloc_brackets_ok_def
  split_first_def lstrip_c0_def remove_unsafe_def unsafe_char_def scheme_char_def netloc_delim_def
  uses_params_def splitparams_def normalize_url_def rstrip_slash_def

lemmas link_eval = is_same_domain_def skip_extensions_def is_valid_page_url_def same_domain_link_def
  links_of_anchor_def extract_internal_links_def related_keywords_def is_registration_related_def
  prioritize_links_def py_strip_def

lemmas crawl_eval = page_found_def visit_def loop_body_def truthy_def

lemma site_env_fields:
  "goto (site_env w) = w" "now (site_env w) n = noon_1_june_2025"
  "urljoin (site_env w) b u = None" "set_order (site_env w) = remdups"
  "bracketed_host_ok (site_env w) h = False" "field_extractors_ok (site_env w) u = True"
  by (simp_all add: site_env_def)

lemma e_org_fields:
  "url (e_org mp md) = ''http://e.org/''" "domain (e_org mp md) = ''e.org''"
  "base_url (e_org mp md) = ''http://e.org''" "max_pages (e_org mp md) = mp"
  "max_depth (e_org mp md) = md" "visited_urls (e_org mp md) = {}"
  "pages_crawled (e_org mp md) = 0" "registration_url (e_org mp md) = None"
  "re_enrollment_date (e_org mp md) = None" "new_registration_date (e_org mp md) = None"
  "crawled_pages (e_org mp md) = []" "stderr (e_org mp md) = []"
  by (simp_all add: e_org_def)

lemma e_org_parse:
  "urlparse (site_env w) ''http://e.org/''
     = Some \<lparr>scheme = ''http'', netloc = ''e.org'', path = ''/'', params = [], query = [],
              fragment = []\<rparr>"
  by (simp add: url_eval char_eval Let_def site_env_def)

lemma e_org_norm: "normalize_url (site_env w) ''http://e.org/'' = Some ''http://e.org''"
  by (simp add: normalize_url_def e_org_parse rstrip_slash_def)

lemma e_org_init: "ProgramScraper_init (site_env w) ''http://e.org/'' mp md = Some (e_org mp md)"
  by (simp add: ProgramScraper_init_def e_org_parse e_org_def)

text \<open>A page whose text holds none of the date keywords leaves the dates alone.\<close>

lemma welcome_no_dates:
  "search_keywords t ''welcome'' 0 300 re_enrollment_keywords = None"
  "search_keywords t ''welcome'' 0 300 new_registration_keywords = None"
  by (simp_all add: re_enrollment_keywords_def new_registration_keywords_def startswith_def)

lemma home_links:
  assumes "base_url S = ''http://e.org''" "domain S = ''e.org''"
  shows "extract_internal_links (site_env w) S home_page cur
           = Some (if ''http://e.org'' \<notin> visited_urls S then [''http://e.org''] else [])"
  using assms
  by (simp add: link_eval char_eval home_page_def site_env_fields e_org_parse e_org_norm)

lemma home_not_related: "\<not> is_registration_related ''http://e.org'' ''Home''"
  by (simp add: is_registration_related_def related_keywords_def char_eval)

lemma home_prioritize:
  assumes "base_url S = ''http://e.org''"
  shows "prioritize_links (site_env w) S [''http://e.org''] home_page = Some [''http://e.org'']"
        "prioritize_links (site_env w) S [] home_page = Some []"
  using assms home_not_related
  by (simp_all add: prioritize_links_def home_page_def py_strip_def char_eval e_org_norm)

lemma home_extract:
  "extract_registration_info (site_env w) S home_page = Some S"
  by (simp add: extract_registration_info_def home_page_def registration_keywords_def char_eval
        Let_def welcome_no_dates)

lemma home_round1:
  "loop_body (site_env home_web) True [(''http://e.org/'', 0)] (e_org 2 1)
     = Some (False, [(''http://e.org'', 1)], home_after_1)"
  by (simp add: loop_body_def visit_def crawl_page_def page_found_def truthy_def Let_def
        e_org_fields site_env_fields home_web_def home_links home_prioritize home_extract
        home_after_1_def)
     (simp add: home_page_def e_org_def)


lemma home_after_1_fields:
  "base_url home_after_1 = ''http://e.org''" "domain home_after_1 = ''e.org''"
  "url home_after_1 = ''http://e.org/''" "max_pages home_after_1 = 2"
  "max_depth home_after_1 = 1" "pages_crawled home_after_1 = 1"
  "visited_urls home_after_1 = {''http://e.org/''}"
  "crawled_pages home_after_1 = [''http://e.org/'']"
  "stderr home_after_1 = [Crawling 1 ''http://e.org/'' 0, ExtractingMain ''http://e.org/'']"
  "re_enrollment_date home_after_1 = None" "new_registration_date home_after_1 = None"
  "registration_url home_after_1 = None"
  by (simp_all add: home_after_1_def e_org_def)

lemma home_round2:
  "loop_body (site_env home_web) True [(''http://e.org'', 1)] home_after_1
     = Some (False, [], home_after_2)"
  by (simp add: loop_body_def visit_def crawl_page_def page_found_def truthy_def Let_def
        home_after_1_fields site_env_fields home_web_def home_links home_prioritize home_extract)
     (simp add: home_page_def home_after_1_def home_after_2_def e_org_def insert_commute)

lemma home_reach: "bfs_reach (site_env home_web) True (e_org 2 1) (False, [], home_after_2)"
proof -
  have "bfs_reach (site_env home_web) True (e_org 2 1) (False, [(''http://e.org/'', 0)], e_org 2 1)"
    using bfs_reach.start[of "site_env home_web" True "e_org 2 1"] by (simp add: e_org_fields)
  then have "bfs_reach (site_env home_web) True (e_org 2 1)
               (False, [(''http://e.org'', 1)], home_after_1)"
    by (rule bfs_reach.round) (simp_all add: e_org_fields home_round1)
  then show ?thesis
    by (rule bfs_reach.round) (simp_all add: home_after_1_fields home_round2)
qed

lemma home_scrape_loop:
  "scrape_loop (site_env home_web) True [(''http://e.org/'', 0)] (e_org 2 1) = Some home_after_2"
proof -
  have "scrape_loop (site_env home_web) True [] home_after_2 = Some home_after_2"
    by (simp add: scrape_loop.simps)
  then have "scrape_loop (site_env home_web) True [(''http://e.org'', 1)] home_after_1
               = Some home_after_2"
    by (subst scrape_loop.simps) (simp add: home_after_1_fields home_round2)
  then show ?thesis
    by (subst scrape_loop.simps) (simp add: e_org_fields home_round1)
qed

lemma home_scrape: "scrape (site_env home_web) True (e_org 2 1) = Some home_after_2"
  by (simp add: scrape_def e_org_fields home_scrape_loop)
     (simp add: registration_fallback_def truthy_def home_after_2_def e_org_def)

lemma home_seed_usable: "seed_usable (site_env home_web) (e_org 2 1)"
  by (simp add: seed_usable_def crawl_page_def Let_def e_org_fields site_env_fields home_web_def
        home_links home_prioritize)
     (simp add: home_page_def)

subsection \<open>A seed that cannot be fetched\<close>

lemma failed_round:
  "loop_body (site_env no_web) True [(''http://e.org/'', 0)] (e_org 2 1)
     = Some (False, [], failed_after)"
  by (simp add: loop_body_def visit_def crawl_page_def truthy_def Let_def
        e_org_fields site_env_fields no_web_def)
     (simp add: failed_after_def e_org_def)

lemma failed_reach: "bfs_reach (site_env no_web) True (e_org 2 1) (False, [], failed_after)"
proof -
  have "bfs_reach (site_env no_web) True (e_org 2 1) (False, [(''http://e.org/'', 0)], e_org 2 1)"
    using bfs_reach.start[of "site_env no_web" True "e_org 2 1"] by (simp add: e_org_fields)
  then show ?thesis
    by (rule bfs_reach.round) (simp_all add: e_org_fields failed_round)
qed

subsection \<open>A seed page without text\<close>

lemma blank_links:
  "extract_internal_links (site_env w) S blank_page cur = Some []"
  "prioritize_links (site_env w) S [] blank_page = Some []"
  by (simp_all add: extract_internal_links_def prioritize_links_def blank_page_def site_env_fields)

lemma blank_round:
  "loop_body (site_env blank_web) True [(''http://e.org/'', 0)] (e_org 2 1)
     = Some (False, [], blank_after)"
  by (simp add: loop_body_def visit_def crawl_page_def truthy_def Let_def
        e_org_fields site_env_fields blank_web_def blank_links)
     (simp add: blank_after_def blank_page_def e_org_def)

lemma blank_scrape: "scrape (site_env blank_web) True (e_org 2 1) = Some blank_after"
proof -
  have "scrape_loop (site_env blank_web) True [] blank_after = Some blank_after"
    by (simp add: scrape_loop.simps)
  then have "scrape_loop (site_env blank_web) True [(''http://e.org/'', 0)] (e_org 2 1)
               = Some blank_after"
    by (subst scrape_loop.simps) (simp add: e_org_fields blank_round)
  then show ?thesis
    by (simp add: scrape_def e_org_fields)
       (simp add: registration_fallback_def truthy_def blank_after_def e_org_def)
qed

section \<open>Page budget and depth limit\<close>

text \<open>
  C2.  For every crawl with \<open>max_pages\<close> positive and \<open>max_depth\<close> non-negative, at every
  state of the breadth-first loop \<open>pages_crawled \<le> max_pages\<close> holds, every fetch of the
  crawl (the line "Crawling (n/max)" that \<open>_crawl_page\<close> prints right before
  \<open>page.goto\<close>) has its counter \<open>n\<close> within \<open>max_pages\<close> and comes from a queue entry of
  depth at most \<open>max_depth\<close>, and \<open>_crawl_page\<close> called at a greater depth returns without
  fetching and leaves the scraper as it is.
\<close>

theorem crawl_within_budget:
  assumes "ProgramScraper_init E seed mp md = Some init" "0 < mp" "0 \<le> md"
    and "bfs_reach E crawl init (b, to_crawl, S)"
  shows "pages_crawled S \<le> mp
       \<and> (\<forall>n u d. Crawling n u d \<in> set (stderr S) \<longrightarrow> n \<le> mp \<and> d \<le> md)
       \<and> (md < depth \<longrightarrow> crawl_page E S v depth = (None, S))"
proof -
  note f = ProgramScraper_init_fields[OF assms(1)]
  from f assms(2) have "pages_crawled init \<le> max_pages init"
    "\<forall>n u d. Crawling n u d \<notin> set (stderr init)"
    by simp_all
  from budget_inv[OF assms(4) this] f
  have "pages_crawled S \<le> mp"
    "\<forall>n u d. Crawling n u d \<in> set (stderr S) \<longrightarrow> n \<le> mp \<and> d \<le> md"
    by simp_all
  moreover from bfs_reach_consts[OF assms(4)] f have "max_depth S = md" by simp
  then have "md < depth \<longrightarrow> crawl_page E S v depth = (None, S)"
    by (simp add: crawl_page_def)
  ultimately show ?thesis by blast
qed

theorem crawl_within_budget_witness:
  "ProgramScraper_init (site_env home_web) ''http://e.org/'' 2 1 = Some (e_org 2 1)
   \<and> bfs_reach (site_env home_web) True (e_org 2 1) (False, [], home_after_2)
   \<and> pages_crawled home_after_2 = 2
   \<and> stderr home_after_2 = [Crawling 1 ''http://e.org/'' 0, ExtractingMain ''http://e.org/'',
                              Crawling 2 ''http://e.org'' 1]
   \<and> crawl_page (site_env home_web) home_after_2 ''http://e.org/a'' 2 = (None, home_after_2)"
  using crawl_within_budget[where E = "site_env home_web" and seed = "''http://e.org/''"
          and mp = 2 and md = 1 and init = "e_org 2 1" and crawl = True and b = False
          and to_crawl = "[]" and S = home_after_2 and depth = 2 and v = "''http://e.org/a''"]
        e_org_init[of home_web 2 1] home_reach
  by (simp add: home_after_2_def)

section \<open>Failed fetches\<close>

text \<open>
  C10.  At every state of the crawl, and in the record \<open>scrape\<close> returns: every entry of
  \<open>crawled_pages\<close> is a URL whose fetch succeeded (\<open>page.goto\<close> returned and no "Error
  crawling" line names it); a URL whose fetch raised is in \<open>visited_urls\<close>, is counted in
  \<open>pages_crawled\<close>, is never tried again (no URL fails twice) and is not in
  \<open>crawled_pages\<close>; the successes and the failures add up to \<open>pages_crawled\<close>, so
  \<open>crawled_pages\<close> is at most \<open>pages_crawled\<close> long, and shorter exactly when some fetch
  failed.
\<close>

theorem failed_fetches_counted_not_listed:
  assumes "ProgramScraper_init E seed mp md = Some init"
    and "bfs_reach E crawl init (b, to_crawl, S) \<or> scrape E crawl init = Some S"
  shows "(\<forall>u \<in> set (crawled_pages S). goto E u \<noteq> None \<and> u \<notin> set (failed_urls (stderr S)))
       \<and> (\<forall>u \<in> set (failed_urls (stderr S)). u \<in> visited_urls S \<and> u \<notin> set (crawled_pages S))
       \<and> distinct (failed_urls (stderr S))
       \<and> int (length (crawled_pages S)) + int (length (failed_urls (stderr S))) = pages_crawled S
       \<and> int (length (crawled_pages S)) \<le> pages_crawled S
       \<and> (int (length (crawled_pages S)) < pages_crawled S \<longleftrightarrow> failed_urls (stderr S) \<noteq> [])"
proof -
  note f = ProgramScraper_init_fields[OF assms(1)]
  have inv: "set (crawled_pages T) \<union> set (failed_urls (stderr T)) = visited_urls T
       \<and> distinct (crawled_pages T @ failed_urls (stderr T))
       \<and> int (length (crawled_pages T)) + int (length (failed_urls (stderr T))) = pages_crawled T
       \<and> (\<forall>u \<in> set (crawled_pages T). goto E u \<noteq> None)"
    if "bfs_reach E crawl init (b', q', T)" for b' q' T
    using failure_inv[OF that f(4,5,6,7)] by simp
  have "set (crawled_pages S) \<union> set (failed_urls (stderr S)) = visited_urls S
       \<and> distinct (crawled_pages S @ failed_urls (stderr S))
       \<and> int (length (crawled_pages S)) + int (length (failed_urls (stderr S))) = pages_crawled S
       \<and> (\<forall>u \<in> set (crawled_pages S). goto E u \<noteq> None)"
    using assms(2)
  proof
    assume "bfs_reach E crawl init (b, to_crawl, S)"
    then show ?thesis by (rule inv)
  next
    assume "scrape E crawl init = Some S"
    then obtain T where t: "scrape_loop E crawl [(url init, 0)] init = Some T"
      and s: "S = registration_fallback E T"
      by (auto simp: scrape_def)
    from scrape_loop_final[OF t bfs_reach.start] obtain b' q' where
      "bfs_reach E crawl init (b', q', T)" by blast
    from inv[OF this] s show ?thesis by (simp add: registration_fallback_same)
  qed
  moreover have "(0 < int (length (failed_urls (stderr S)))) = (failed_urls (stderr S) \<noteq> [])"
    by simp
  ultimately show ?thesis by (auto simp del: of_nat_0_less_iff length_greater_0_conv)
qed

theorem failed_fetches_counted_not_listed_witness:
  "ProgramScraper_init (site_env no_web) ''http://e.org/'' 2 1 = Some (e_org 2 1)
   \<and> bfs_reach (site_env no_web) True (e_org 2 1) (False, [], failed_after)
   \<and> crawled_pages failed_after = []
   \<and> failed_urls (stderr failed_after) = [''http://e.org/'']
   \<and> ''http://e.org/'' \<in> visited_urls failed_after
   \<and> pages_crawled failed_after = 1
   \<and> int (length (crawled_pages failed_after)) < pages_crawled failed_after"
  using failed_fetches_counted_not_listed[where E = "site_env no_web"
          and seed = "''http://e.org/''" and mp = 2 and md = 1 and init = "e_org 2 1"
          and crawl = True and b = False and to_crawl = "[]" and S = failed_after]
        e_org_init[of no_web 2 1] failed_reach
  by (simp add: failed_after_def)

section \<open>Field extractors\<close>

text \<open>
  C4, as the code has it.  For every crawl with \<open>max_pages\<close> positive and \<open>max_depth\<close>
  non-negative, the field extractors are run at most once and only against the seed page.
  At every state of the loop: once the first page is counted they have been run exactly
  once, against the seed URL, if \<open>_crawl_page\<close> returned the seed page and its body text
  is not empty, and not at all otherwise.  In every record \<open>scrape\<close> returns: exactly once,
  against the seed URL, which is then the first entry of \<open>crawled_pages\<close> and on which
  they returned, when the seed page is usable, and not at all otherwise.  They are never
  run on a later page.  (When a field extractor raises, \<open>scrape\<close> raises and returns no
  record.)
\<close>

theorem field_extractors_only_on_seed:
  assumes "ProgramScraper_init E seed mp md = Some init" "0 < mp" "0 \<le> md"
  shows "(bfs_reach E crawl init (b, to_crawl, T) \<longrightarrow>
            main_page_runs (stderr T)
              = (if 1 \<le> pages_crawled T \<and> seed_usable E init then [seed] else []))
       \<and> (scrape E crawl init = Some S \<longrightarrow>
            main_page_runs (stderr S) = (if seed_usable E init then [seed] else [])
            \<and> (seed_usable E init \<longrightarrow>
                  take 1 (crawled_pages S) = [seed] \<and> field_extractors_ok E seed))"
proof -
  note f = ProgramScraper_init_fields[OF assms(1)]
  from f assms have k: "0 < max_pages init" "0 \<le> max_depth init" by simp_all
  have one: "main_page_runs (stderr T)
               = (if 1 \<le> pages_crawled T \<and> seed_usable E init then [seed] else [])"
    if r: "bfs_reach E crawl init (b, to_crawl, T)"
    using main_page_inv[OF r f(4,5,6,7) k] f by auto
  have two: "main_page_runs (stderr S) = (if seed_usable E init then [seed] else [])
            \<and> (seed_usable E init \<longrightarrow>
                  take 1 (crawled_pages S) = [seed] \<and> field_extractors_ok E seed)"
    if s: "scrape E crawl init = Some S"
  proof -
    from s obtain X where x: "scrape_loop E crawl [(url init, 0)] init = Some X"
      and sx: "S = registration_fallback E X"
      by (auto simp: scrape_def)
    from scrape_loop_final[OF x bfs_reach.start] obtain b' q' where
      r: "bfs_reach E crawl init (b', q', X)"
      and fin: "b' \<or> q' = [] \<or> \<not> pages_crawled X < max_pages X"
      by blast
    from main_page_inv[OF r f(4,5,6,7) k] fin f assms(2)
    have "main_page_runs (stderr X) = (if seed_usable E init then [seed] else [])"
         "seed_usable E init \<longrightarrow> take 1 (crawled_pages X) = [seed] \<and> field_extractors_ok E seed"
      by auto
    with sx show ?thesis by (simp add: registration_fallback_same)
  qed
  from one two show ?thesis by blast
qed

theorem field_extractors_only_on_seed_witness:
  "ProgramScraper_init (site_env home_web) ''http://e.org/'' 2 1 = Some (e_org 2 1)
   \<and> seed_usable (site_env home_web) (e_org 2 1)
   \<and> bfs_reach (site_env home_web) True (e_org 2 1) (False, [], home_after_2)
   \<and> scrape (site_env home_web) True (e_org 2 1) = Some home_after_2
   \<and> main_page_runs (stderr home_after_2) = [''http://e.org/'']
   \<and> take 1 (crawled_pages home_after_2) = [''http://e.org/'']
   \<and> field_extractors_ok (site_env home_web) ''http://e.org/''
   \<and> pages_crawled home_after_2 = 2"
  using field_extractors_only_on_seed[where E = "site_env home_web"
          and seed = "''http://e.org/''" and mp = 2 and md = 1 and init = "e_org 2 1"
          and crawl = True and b = False and to_crawl = "[]" and T = home_after_2
          and S = home_after_2]
        e_org_init[of home_web 2 1] home_scrape home_seed_usable home_reach
  by (simp add: home_after_2_def site_env_fields)

text \<open>
  C4 as stated fails.  The seed page loads (it is the first and only entry of
  \<open>crawled_pages\<close>, and no fetch failed), but its body text is empty, so the block under
  \<open>if soup and text:\<close> is skipped and the field extractors never run.
\<close>

theorem field_extractors_not_run_counterexample:
  "ProgramScraper_init (site_env blank_web) ''http://e.org/'' 2 1 = Some (e_org 2 1)
   \<and> scrape (site_env blank_web) True (e_org 2 1) = Some blank_after
   \<and> crawled_pages blank_after = [''http://e.org/'']
   \<and> failed_urls (stderr blank_after) = []
   \<and> main_page_runs (stderr blank_after) = []"
  using e_org_init[of blank_web 2 1] blank_scrape
  by (simp add: blank_after_def)

section \<open>The seed URL is fetched twice\<close>

lemma e_org_bare_norm: "normalize_url (site_env w) ''http://e.org'' = Some ''http://e.org''"
  by (simp add: url_eval char_eval Let_def site_env_def)

text \<open>
  C8 fails on the code.  The seed URL goes into the queue and into \<open>visited_urls\<close> as it
  was given, while discovered links are normalised first.  On a site whose home page links
  to \<open>/\<close>, the crawl of \<open>http://e.org/\<close> fetches the home page a second time under the
  name \<open>http://e.org\<close>: two entries of \<open>crawled_pages\<close> have the same normal form.
\<close>

theorem seed_fetched_twice:
  "ProgramScraper_init (site_env home_web) ''http://e.org/'' 2 1 = Some (e_org 2 1)
   \<and> scrape (site_env home_web) True (e_org 2 1) = Some home_after_2
   \<and> crawled_pages home_after_2 = [''http://e.org/'', ''http://e.org'']
   \<and> normalize_url (site_env home_web) ''http://e.org/'' = Some ''http://e.org''
   \<and> normalize_url (site_env home_web) ''http://e.org'' = Some ''http://e.org''"
  using e_org_init[of home_web 2 1] home_scrape e_org_norm[of home_web]
        e_org_bare_norm[of home_web]
  by (simp add: home_after_2_def)

section \<open>A crawl of two pages\<close>

lemma e_org_a_parse:
  "urlparse (site_env w) ''http://e.org/a''
     = Some \<lparr>scheme = ''http'', netloc = ''e.org'', path = ''/a'', params = [], query = [],
              fragment = []\<rparr>"
  by (simp add: url_eval char_eval Let_def site_env_def)

lemma e_org_a_norm: "normalize_url (site_env w) ''http://e.org/a'' = Some ''http://e.org/a''"
  by (simp add: normalize_url_def e_org_a_parse rstrip_slash_def)

lemma e_org_b_parse:
  "urlparse (site_env w) ''http://e.org/b''
     = Some \<lparr>scheme = ''http'', netloc = ''e.org'', path = ''/b'', params = [], query = [],
              fragment = []\<rparr>"
  by (simp add: url_eval char_eval Let_def site_env_def)

lemma e_org_b_norm: "normalize_url (site_env w) ''http://e.org/b'' = Some ''http://e.org/b''"
  by (simp add: normalize_url_def e_org_b_parse rstrip_slash_def)

lemma first_links:
  assumes "base_url S = ''http://e.org''" "domain S = ''e.org''"
  shows "extract_internal_links (site_env w) S first_page cur
           = Some (if ''http://e.org/a'' \<notin> visited_urls S then [''http://e.org/a''] else [])"
  using assms
  by (simp add: link_eval char_eval first_page_def site_env_fields e_org_a_parse e_org_a_norm)

lemma second_links:
  assumes "base_url S = ''http://e.org''" "domain S = ''e.org''"
  shows "extract_internal_links (site_env w) S second_page cur
           = Some (if ''http://e.org/b'' \<notin> visited_urls S then [''http://e.org/b''] else [])"
  using assms
  by (simp add: link_eval char_eval second_page_def site_env_fields e_org_b_parse e_org_b_norm)

lemma register_related: "is_registration_related ''http://e.org/a'' ''Register''"
  by (simp add: is_registration_related_def related_keywords_def char_eval)

lemma enroll_related: "is_registration_related ''http://e.org/b'' ''Enroll''"
  by (simp add: is_registration_related_def related_keywords_def char_eval)

lemma first_prioritize:
  assumes "base_url S = ''http://e.org''"
  shows "prioritize_links (site_env w) S [''http://e.org/a''] first_page = Some [''http://e.org/a'']"
  using assms register_related
  by (simp add: prioritize_links_def first_page_def py_strip_def char_eval e_org_a_norm)

lemma second_prioritize:
  assumes "base_url S = ''http://e.org''"
  shows "prioritize_links (site_env w) S [''http://e.org/b''] second_page = Some [''http://e.org/b'']"
  using assms enroll_related
  by (simp add: prioritize_links_def second_page_def py_strip_def char_eval e_org_b_norm)

lemma first_registration_url:
  assumes "url S = ''http://e.org/''"
  shows "extract_registration_url (site_env w) S (anchors first_page)
           = Some (S\<lparr>registration_url := Some ''http://e.org/a''\<rparr>)"
  using assms
  by (simp add: first_page_def registration_keywords_def char_eval Let_def e_org_parse)

lemma second_registration_url:
  assumes "url S = ''http://e.org/''"
  shows "extract_registration_url (site_env w) S (anchors second_page)
           = Some (S\<lparr>registration_url := Some ''http://e.org/b''\<rparr>)"
  using assms
  by (simp add: second_page_def registration_keywords_def char_eval Let_def e_org_parse)

lemma first_page_lower: "py_lower (body_text first_page) = ''re-enrollment: jan 5, 2030''"
  by (simp add: first_page_def char_eval)

lemma first_extract:
  assumes "url S = ''http://e.org/''"
  shows "extract_registration_info (site_env w) S first_page
           = Some (S\<lparr>registration_url := Some ''http://e.org/a'',
                      re_enrollment_date := Some ''2030-01-05''\<rparr>)"
  using assms
  by (simp add: extract_registration_info_def first_registration_url first_page_lower
        site_env_fields reenroll_search_re reenroll_search_new strftime_5_jan_2030 Let_def)

lemma feb_p1:
  "findall_first pat_weekday_month_day_year ''re-enrollment: feb 1, 2030'' = None"
  by (simp add: char_eval rx_eval)

lemma feb_p2:
  "findall_first pat_month_day_year ''re-enrollment: feb 1, 2030'' = Some [''feb'', ''1'', ''2030'']"
  by (simp add: char_eval rx_eval)

lemma feb_parse:
  "parse_date_from_context noon_1_june_2025 ''re-enrollment: feb 1, 2030''
     = Some \<lparr>dt_year = 2030, dt_month = 2, dt_day = 1, dt_micros = 0\<rparr>"
  by (simp add: parse_date_from_context_def date_patterns_def feb_p1 feb_p2
        date_eval char_eval noon_1_june_2025_def del: findall_first.simps)

lemma feb_search_re:
  "search_keywords noon_1_june_2025 ''re-enrollment: feb 1, 2030'' 0 300 re_enrollment_keywords
     = Some \<lparr>dt_year = 2030, dt_month = 2, dt_day = 1, dt_micros = 0\<rparr>"
  by (simp add: re_enrollment_keywords_def startswith_def feb_parse)

lemma feb_search_new:
  "search_keywords noon_1_june_2025 ''re-enrollment: feb 1, 2030'' 0 300 new_registration_keywords
     = None"
  by (simp add: new_registration_keywords_def startswith_def)

lemma second_page_lower: "py_lower (body_text second_page) = ''re-enrollment: feb 1, 2030''"
  by (simp add: second_page_def char_eval)

lemma strftime_1_feb_2030:
  "strftime_ymd \<lparr>dt_year = 2030, dt_month = 2, dt_day = 1, dt_micros = 0\<rparr> = ''2030-02-01''"
  by (simp add: strftime_ymd_def digit_char_def char_of_eq_iff)

lemma second_extract:
  assumes "url S = ''http://e.org/''"
  shows "extract_registration_info (site_env w) S second_page
           = Some (S\<lparr>registration_url := Some ''http://e.org/b'',
                      re_enrollment_date := Some ''2030-02-01''\<rparr>)"
  using assms
  by (simp add: extract_registration_info_def second_registration_url second_page_lower
        site_env_fields feb_search_re feb_search_new strftime_1_feb_2030 Let_def)

lemma courses_after_1_fields:
  "base_url courses_after_1 = ''http://e.org''" "domain courses_after_1 = ''e.org''"
  "url courses_after_1 = ''http://e.org/''" "max_pages courses_after_1 = 2"
  "max_depth courses_after_1 = 1" "pages_crawled courses_after_1 = 1"
  "visited_urls courses_after_1 = {''http://e.org/''}"
  "crawled_pages courses_after_1 = [''http://e.org/'']"
  "stderr courses_after_1 = [Crawling 1 ''http://e.org/'' 0, ExtractingMain ''http://e.org/'']"
  "re_enrollment_date courses_after_1 = Some ''2030-01-05''"
  "new_registration_date courses_after_1 = None"
  "registration_url courses_after_1 = Some ''http://e.org/a''"
  by (simp_all add: courses_after_1_def e_org_def)

lemma courses_round1:
  "loop_body (site_env courses_web) True [(''http://e.org/'', 0)] (e_org 2 1)
     = Some (False, [(''http://e.org/a'', 1)], courses_after_1)"
  by (simp add: loop_body_def visit_def crawl_page_def page_found_def truthy_def Let_def
        e_org_fields site_env_fields courses_web_def first_links first_prioritize first_extract)
     (simp add: first_page_def courses_after_1_def e_org_def)

lemma courses_round2:
  "loop_body (site_env courses_web) True [(''http://e.org/a'', 1)] courses_after_1
     = Some (False, [], courses_after_2)"
  by (simp add: loop_body_def visit_def crawl_page_def page_found_def truthy_def Let_def
        courses_after_1_fields site_env_fields courses_web_def second_links second_prioritize
        second_extract)
     (simp add: second_page_def courses_after_1_def courses_after_2_def e_org_def insert_commute)

lemma courses_reach_1:
  "bfs_reach (site_env courses_web) True (e_org 2 1)
     (False, [(''http://e.org/a'', 1)], courses_after_1)"
proof -
  have "bfs_reach (site_env courses_web) True (e_org 2 1)
          (False, [(''http://e.org/'', 0)], e_org 2 1)"
    using bfs_reach.start[of "site_env courses_web" True "e_org 2 1"] by (simp add: e_org_fields)
  then show ?thesis
    by (rule bfs_reach.round) (simp_all add: e_org_fields courses_round1)
qed

lemma courses_scrape_loop:
  "scrape_loop (site_env courses_web) True [(''http://e.org/'', 0)] (e_org 2 1)
     = Some courses_after_2"
proof -
  have "scrape_loop (site_env courses_web) True [] courses_after_2 = Some courses_after_2"
    by (simp add: scrape_loop.simps)
  then have "scrape_loop (site_env courses_web) True [(''http://e.org/a'', 1)] courses_after_1
               = Some courses_after_2"
    by (subst scrape_loop.simps) (simp add: courses_after_1_fields courses_round2)
  then show ?thesis
    by (subst scrape_loop.simps) (simp add: e_org_fields courses_round1)
qed

lemma courses_scrape: "scrape (site_env courses_web) True (e_org 2 1) = Some courses_after_2"
  by (simp add: scrape_def e_org_fields courses_scrape_loop)
     (simp add: registration_fallback_def truthy_def courses_after_2_def e_org_def)

section \<open>Dates are overwritten by later pages\<close>

text \<open>
  C1 fails on the code.  \<open>_extract_registration_info\<close> assigns \<open>re_enrollment_date\<close> and
  \<open>new_registration_date\<close> whenever its keyword loop finds a date, without the test
  \<open>if not self.data[...]\<close> that \<open>_scrape_registration_page\<close> makes.  In the crawl of the
  two-page site the first page sets \<open>re_enrollment_date\<close> to 2030-01-05; the crawl goes
  on, since the other date is missing, and the second page changes the field to
  2030-02-01, which \<open>scrape\<close> returns.
\<close>

theorem re_enrollment_date_overwritten:
  "ProgramScraper_init (site_env courses_web) ''http://e.org/'' 2 1 = Some (e_org 2 1)
   \<and> bfs_reach (site_env courses_web) True (e_org 2 1)
        (False, [(''http://e.org/a'', 1)], courses_after_1)
   \<and> re_enrollment_date courses_after_1 = Some ''2030-01-05''
   \<and> loop_body (site_env courses_web) True [(''http://e.org/a'', 1)] courses_after_1
        = Some (False, [], courses_after_2)
   \<and> re_enrollment_date courses_after_2 = Some ''2030-02-01''
   \<and> scrape (site_env courses_web) True (e_org 2 1) = Some courses_after_2"
  using e_org_init[of courses_web 2 1] courses_reach_1 courses_round2 courses_scrape
  by (simp add: courses_after_1_fields) (simp add: courses_after_2_def)

section \<open>The registration URL\<close>

text \<open>
  C5, as the code has it.  On every page the registration extractor runs on,
  \<open>registration_url\<close> becomes the URL of the first anchor of that page, in document order,
  that names registration and has a usable href, whatever the field held before; a page
  with no such anchor leaves the field as it is.  So at every state of a crawl, and in the
  record \<open>scrape\<close> returns, the field holds the registration link of the latest page of
  \<open>crawled_pages\<close> that has one (a page with body text and such an anchor), and nothing
  when no crawled page has one: the latest page wins, not the earliest.
\<close>

theorem registration_url_latest_page_wins:
  "(extract_registration_info E S soup = Some S' \<longrightarrow>
      registration_url S' =
        (case find (\<lambda>link. names_registration link \<and> usable_href (fst link)) (anchors soup) of
           None \<Rightarrow> registration_url S
         | Some link \<Rightarrow> resolved_href E S (fst link)))
   \<and> (ProgramScraper_init E seed mp md = Some init
        \<and> (bfs_reach E crawl init (b, to_crawl, T) \<or> scrape E crawl init = Some T) \<longrightarrow>
      registration_url T
        = latest_link (map (page_registration_link E init) (crawled_pages T)))"
proof -
  have inv: "registration_url X
               = latest_link (map (page_registration_link E init) (crawled_pages X))"
    if "ProgramScraper_init E seed mp md = Some init" "bfs_reach E crawl init (b', q', X)"
    for b' q' X
    using registration_inv[OF that(2)] ProgramScraper_init_fields(6,8,11)[OF that(1)] by simp
  have "registration_url T = latest_link (map (page_registration_link E init) (crawled_pages T))"
    if i: "ProgramScraper_init E seed mp md = Some init"
      and "bfs_reach E crawl init (b, to_crawl, T) \<or> scrape E crawl init = Some T"
    using that(2)
  proof
    assume "bfs_reach E crawl init (b, to_crawl, T)"
    then show ?thesis by (rule inv[OF i])
  next
    assume "scrape E crawl init = Some T"
    then obtain X where x: "scrape_loop E crawl [(url init, 0)] init = Some X"
      and t: "T = registration_fallback E X"
      by (auto simp: scrape_def)
    from scrape_loop_final[OF x bfs_reach.start] obtain b' q' where
      "bfs_reach E crawl init (b', q', X)" by blast
    from inv[OF i this] t show ?thesis by (simp add: registration_fallback_same)
  qed
  with extract_registration_info_find[of E S soup S'] show ?thesis by blast
qed

lemma second_page_link:
  "find (\<lambda>link. names_registration link \<and> usable_href (fst link)) (anchors second_page)
     = Some (''/b'', ''Enroll'')"
  by (simp add: second_page_def names_registration_def usable_href_def
        registration_keywords_def char_eval)

lemma first_page_link:
  "find (\<lambda>link. names_registration link \<and> usable_href (fst link)) (anchors first_page)
     = Some (''/a'', ''Register'')"
  by (simp add: first_page_def names_registration_def usable_href_def
        registration_keywords_def char_eval)

lemma courses_links:
  "page_registration_link (site_env courses_web) (e_org 2 1) ''http://e.org/'' = Some ''http://e.org/a''"
  "page_registration_link (site_env courses_web) (e_org 2 1) ''http://e.org/a'' = Some ''http://e.org/b''"
  by (simp_all add: page_registration_link_def site_env_fields courses_web_def first_page_link
        second_page_link resolved_href_def e_org_fields e_org_parse startswith_def)
     (simp_all add: first_page_def second_page_def)

theorem registration_url_latest_page_wins_witness:
  "ProgramScraper_init (site_env courses_web) ''http://e.org/'' 2 1 = Some (e_org 2 1)
   \<and> extract_registration_info (site_env courses_web) courses_after_1 second_page
       = Some (courses_after_1\<lparr>registration_url := Some ''http://e.org/b'',
                               re_enrollment_date := Some ''2030-02-01''\<rparr>)
   \<and> registration_url courses_after_1 = Some ''http://e.org/a''
   \<and> find (\<lambda>link. names_registration link \<and> usable_href (fst link)) (anchors second_page)
        = Some (''/b'', ''Enroll'')
   \<and> resolved_href (site_env courses_web) courses_after_1 ''/b'' = Some ''http://e.org/b''
   \<and> scrape (site_env courses_web) True (e_org 2 1) = Some courses_after_2
   \<and> crawled_pages courses_after_2 = [''http://e.org/'', ''http://e.org/a'']
   \<and> map (page_registration_link (site_env courses_web) (e_org 2 1)) (crawled_pages courses_after_2)
        = [Some ''http://e.org/a'', Some ''http://e.org/b'']
   \<and> registration_url courses_after_2 = Some ''http://e.org/b''"
proof -
  have e: "extract_registration_info (site_env courses_web) courses_after_1 second_page
             = Some (courses_after_1\<lparr>registration_url := Some ''http://e.org/b'',
                                     re_enrollment_date := Some ''2030-02-01''\<rparr>)"
    by (rule second_extract) (simp add: courses_after_1_fields)
  have c: "crawled_pages courses_after_2 = [''http://e.org/'', ''http://e.org/a'']"
    by (simp add: courses_after_2_def)
  have r: "resolved_href (site_env courses_web) courses_after_1 ''/b'' = Some ''http://e.org/b''"
    by (simp add: resolved_href_def courses_after_1_fields e_org_parse startswith_def)
  show ?thesis
    using registration_url_latest_page_wins[where E = "site_env courses_web"
            and seed = "''http://e.org/''" and mp = 2 and md = 1 and init = "e_org 2 1"
            and S = courses_after_1 and soup = second_page and b = False
            and to_crawl = "[]"
            and S' = "courses_after_1\<lparr>registration_url := Some ''http://e.org/b'',
                                       re_enrollment_date := Some ''2030-02-01''\<rparr>"
            and crawl = True and T = courses_after_2]
          e_org_init[of courses_web 2 1] e second_page_link courses_scrape c r courses_links
    by (simp add: courses_after_1_fields)
qed

text \<open>
  C5 as stated fails.  In the crawl of the two-page site the seed page sets
  \<open>registration_url\<close> to \<open>http://e.org/a\<close>, and the second page, fetched later, replaces
  it with its own link \<open>http://e.org/b\<close>.
\<close>

theorem registration_url_replaced_counterexample:
  "ProgramScraper_init (site_env courses_web) ''http://e.org/'' 2 1 = Some (e_org 2 1)
   \<and> bfs_reach (site_env courses_web) True (e_org 2 1)
        (False, [(''http://e.org/a'', 1)], courses_after_1)
   \<and> registration_url courses_after_1 = Some ''http://e.org/a''
   \<and> scrape (site_env courses_web) True (e_org 2 1) = Some courses_after_2
   \<and> registration_url courses_after_2 = Some ''http://e.org/b''"
  using e_org_init[of courses_web 2 1] courses_reach_1 courses_scrape
  by (simp add: courses_after_1_fields) (simp add: courses_after_2_def)

section \<open>The registration-page fallback\<close>

lemma no_fallback_in_bfs:
  assumes "bfs_reach E c S0 st" "fallback_fetches (stderr S0) = []"
  shows "fallback_fetches (stderr (snd (snd st))) = []"
  using assms
proof (induction rule: bfs_reach.induct)
  case start
  then show ?case by simp
next
  case (round to_crawl S st)
  obtain b q' S' where st: "st = (b, q', S')" by (cases st) auto
  from round(4) st have "loop_body E c to_crawl S = Some (b, q', S')" by simp
  then show ?case
  proof (cases rule: loop_body_effect)
    case (idle u d)
    with round st show ?thesis by auto
  next
    case (crawled u d res S1)
    with round st show ?thesis by auto
  qed
qed

lemma strftime_ymd_not_empty: "strftime_ymd d \<noteq> []"
  by (simp add: strftime_ymd_def)

lemma registration_page_dates_passes:
  assumes "re_enrollment_date R = None" "new_registration_date R = None"
  shows "re_enrollment_date (registration_page_dates today text R)
           = map_option strftime_ymd (search_keywords today text 0 300 re_enrollment_keywords)"
    and "new_registration_date (registration_page_dates today text R)
           = map_option strftime_ymd
               (case search_keywords today text 0 300 page_new_registration_keywords of
                  Some d \<Rightarrow> Some d
                | None \<Rightarrow> search_keywords today text 100 200 general_keywords)"
  using assms
  by (auto simp: registration_page_dates_def Let_def truthy_def strftime_ymd_not_empty
           split: option.splits)

text \<open>
  C6, as the code has it.  Let the loop of a crawl return the scraper \<open>T\<close>; the crawl
  itself never navigates to the registration page, and \<open>scrape\<close> returns what the test
  after the loop makes of \<open>T\<close>.  When \<open>registration_url\<close> is set and not empty, no URL
  visited in the crawl has its normal form, and both \<open>re_enrollment_date\<close> and
  \<open>new_registration_date\<close> are missing, exactly one more fetch is made, of that URL, and
  when it succeeds the three date passes of \<open>_scrape_registration_page\<close> run on its text.
  When either date is set, or there is no registration URL, or it is in \<open>visited_urls\<close>,
  no fetch is made and the record is returned as the crawl left it.  On a record with both
  dates missing the passes are the re-enrollment keywords, the new-registration keywords
  and, when these give no date, the generic keywords with a window of 100 characters
  before and 200 after.
\<close>

theorem fallback_only_when_both_dates_missing:
  assumes "ProgramScraper_init E seed mp md = Some init"
    and "scrape_loop E crawl [(seed, 0)] init = Some T"
  shows "scrape E crawl init = Some (registration_fallback E T)
       \<and> fallback_fetches (stderr T) = []
       \<and> (registration_url T = Some r \<and> r \<noteq> [] \<and> \<not> truthy (re_enrollment_date T)
            \<and> \<not> truthy (new_registration_date T)
            \<and> (\<forall>v \<in> visited_urls T. normalize_url E v \<noteq> normalize_url E r)
          \<longrightarrow> fallback_fetches (stderr (registration_fallback E T)) = [r]
              \<and> registration_fallback E T =
                  (case goto E r of
                     None \<Rightarrow>
                       T\<lparr>stderr := stderr T @ [CheckingRegistrationUrl r,
                            NavigatingRegistration r, ErrorRegistration r]\<rparr>
                   | Some reg_page \<Rightarrow>
                       registration_page_dates (now E (pages_crawled T + 1))
                         (py_lower (body_text reg_page))
                         (T\<lparr>stderr := stderr T @ [CheckingRegistrationUrl r,
                               NavigatingRegistration r]\<rparr>)))
       \<and> (truthy (re_enrollment_date T) \<or> truthy (new_registration_date T)
            \<or> \<not> truthy (registration_url T)
            \<or> (\<exists>v \<in> visited_urls T. registration_url T = Some v)
          \<longrightarrow> registration_fallback E T = T)
       \<and> (re_enrollment_date R = None \<and> new_registration_date R = None \<longrightarrow>
            re_enrollment_date (registration_page_dates today page_text R)
              = map_option strftime_ymd (search_keywords today page_text 0 300 re_enrollment_keywords)
            \<and> new_registration_date (registration_page_dates today page_text R)
              = map_option strftime_ymd
                  (case search_keywords today page_text 0 300 page_new_registration_keywords of
                     Some d \<Rightarrow> Some d
                   | None \<Rightarrow> search_keywords today page_text 100 200 general_keywords))"
proof -
  note f = ProgramScraper_init_fields[OF assms(1)]
  from assms(2) f have t: "scrape_loop E crawl [(url init, 0)] init = Some T" by simp
  then have s: "scrape E crawl init = Some (registration_fallback E T)"
    by (simp add: scrape_def)
  from scrape_loop_final[OF t bfs_reach.start] obtain b q where
    "bfs_reach E crawl init (b, q, T)" by blast
  from no_fallback_in_bfs[OF this] f have nf: "fallback_fetches (stderr T) = []" by simp
  have c1: "fallback_fetches (stderr (registration_fallback E T)) = [r]
              \<and> registration_fallback E T =
                  (case goto E r of
                     None \<Rightarrow>
                       T\<lparr>stderr := stderr T @ [CheckingRegistrationUrl r,
                            NavigatingRegistration r, ErrorRegistration r]\<rparr>
                   | Some reg_page \<Rightarrow>
                       registration_page_dates (now E (pages_crawled T + 1))
                         (py_lower (body_text reg_page))
                         (T\<lparr>stderr := stderr T @ [CheckingRegistrationUrl r,
                               NavigatingRegistration r]\<rparr>))"
    if a: "registration_url T = Some r" "r \<noteq> []" "\<not> truthy (re_enrollment_date T)"
      "\<not> truthy (new_registration_date T)"
      "\<forall>v \<in> visited_urls T. normalize_url E v \<noteq> normalize_url E r"
  proof -
    from a(5) have "r \<notin> visited_urls T" by blast
    with a(1-4) nf show ?thesis
      by (auto simp: registration_fallback_def scrape_registration_page_def truthy_def Let_def
                     registration_page_dates_same
               split: option.splits)
  qed
  have c2: "registration_fallback E T = T"
    if "truthy (re_enrollment_date T) \<or> truthy (new_registration_date T)
          \<or> \<not> truthy (registration_url T)
          \<or> (\<exists>v \<in> visited_urls T. registration_url T = Some v)"
    using that
    by (auto simp: registration_fallback_def split: option.splits)
  from s nf c1 c2 registration_page_dates_passes[of R today page_text] show ?thesis by blast
qed

subsection \<open>A crawl that ends in the fallback\<close>

lemma plain_links:
  assumes "base_url S = ''http://e.org''" "domain S = ''e.org''"
  shows "extract_internal_links (site_env w) S plain_page cur
           = Some (if ''http://e.org/a'' \<notin> visited_urls S then [''http://e.org/a''] else [])"
  using assms
  by (simp add: link_eval char_eval plain_page_def site_env_fields e_org_a_parse e_org_a_norm)

lemma plain_prioritize:
  assumes "base_url S = ''http://e.org''"
  shows "prioritize_links (site_env w) S [''http://e.org/a''] plain_page = Some [''http://e.org/a'']"
  using assms register_related
  by (simp add: prioritize_links_def plain_page_def py_strip_def char_eval e_org_a_norm)

lemma plain_extract:
  assumes "url S = ''http://e.org/''"
  shows "extract_registration_info (site_env w) S plain_page
           = Some (S\<lparr>registration_url := Some ''http://e.org/a''\<rparr>)"
  using assms
  by (simp add: extract_registration_info_def plain_page_def registration_keywords_def
        char_eval Let_def e_org_parse welcome_no_dates)

lemma signup_round:
  "loop_body (site_env signup_web) True [(''http://e.org/'', 0)] (e_org 1 1)
     = Some (False, [(''http://e.org/a'', 1)], signup_after_1)"
  by (simp add: loop_body_def visit_def crawl_page_def page_found_def truthy_def Let_def
        e_org_fields site_env_fields signup_web_def plain_links plain_prioritize plain_extract)
     (simp add: plain_page_def signup_after_1_def e_org_def)

lemma signup_scrape_loop:
  "scrape_loop (site_env signup_web) True [(''http://e.org/'', 0)] (e_org 1 1)
     = Some signup_after_1"
proof -
  have "scrape_loop (site_env signup_web) True [(''http://e.org/a'', 1)] signup_after_1
          = Some signup_after_1"
    by (subst scrape_loop.simps) (simp add: signup_after_1_def e_org_def)
  then show ?thesis
    by (subst scrape_loop.simps) (simp add: e_org_fields signup_round)
qed

lemma starts_p1: "findall_first pat_weekday_month_day_year ''starts 3/1/2030'' = None"
  by (simp add: char_eval rx_eval)

lemma starts_p2: "findall_first pat_month_day_year ''starts 3/1/2030'' = None"
  by (simp add: char_eval rx_eval)

lemma starts_p3: "findall_first pat_slashes ''starts 3/1/2030'' = Some [''3'', ''1'', ''2030'']"
  by (simp add: char_eval rx_eval)

lemma starts_parse:
  "parse_date_from_context noon_1_june_2025 ''starts 3/1/2030''
     = Some \<lparr>dt_year = 2030, dt_month = 3, dt_day = 1, dt_micros = 0\<rparr>"
  by (simp add: parse_date_from_context_def date_patterns_def starts_p1 starts_p2 starts_p3
        date_eval char_eval noon_1_june_2025_def del: findall_first.simps)

lemma starts_search:
  "search_keywords noon_1_june_2025 ''starts 3/1/2030'' 0 300 re_enrollment_keywords = None"
  "search_keywords noon_1_june_2025 ''starts 3/1/2030'' 0 300 page_new_registration_keywords
     = None"
  "search_keywords noon_1_june_2025 ''starts 3/1/2030'' 100 200 general_keywords
     = Some \<lparr>dt_year = 2030, dt_month = 3, dt_day = 1, dt_micros = 0\<rparr>"
  by (simp_all add: re_enrollment_keywords_def page_new_registration_keywords_def
        general_keywords_def startswith_def starts_parse)

lemma strftime_1_march_2030:
  "strftime_ymd \<lparr>dt_year = 2030, dt_month = 3, dt_day = 1, dt_micros = 0\<rparr> = ''2030-03-01''"
  by (simp add: strftime_ymd_def digit_char_def char_of_eq_iff)

lemma dates_page_lower: "py_lower (body_text dates_page) = ''starts 3/1/2030''"
  by (simp add: dates_page_def char_eval)

lemma signup_fallback: "registration_fallback (site_env signup_web) signup_after_1 = signup_final"
  by (simp add: registration_fallback_def scrape_registration_page_def truthy_def Let_def
        signup_after_1_def e_org_def site_env_fields signup_web_def dates_page_lower
        registration_page_dates_def starts_search strftime_1_march_2030 signup_final_def)

theorem fallback_only_when_both_dates_missing_witness:
  "ProgramScraper_init (site_env signup_web) ''http://e.org/'' 1 1 = Some (e_org 1 1)
   \<and> scrape_loop (site_env signup_web) True [(''http://e.org/'', 0)] (e_org 1 1)
       = Some signup_after_1
   \<and> registration_url signup_after_1 = Some ''http://e.org/a''
   \<and> re_enrollment_date signup_after_1 = None
   \<and> new_registration_date signup_after_1 = None
   \<and> scrape (site_env signup_web) True (e_org 1 1) = Some signup_final
   \<and> fallback_fetches (stderr signup_final) = [''http://e.org/a'']
   \<and> new_registration_date signup_final = Some ''2030-03-01''"
  using fallback_only_when_both_dates_missing[where E = "site_env signup_web"
          and seed = "''http://e.org/''" and mp = 1 and md = 1 and init = "e_org 1 1"
          and crawl = True and T = signup_after_1 and r = "''http://e.org/a''"
          and R = signup_after_1 and today = noon_1_june_2025
          and page_text = "''starts 3/1/2030''"]
        e_org_init[of signup_web 1 1] signup_scrape_loop signup_fallback
        e_org_norm[of signup_web] e_org_a_norm[of signup_web]
  by (simp add: signup_final_def) (simp add: signup_after_1_def e_org_def)

text \<open>
  C6 as stated fails.  The crawl of the two-page site ends with a registration URL that was
  never visited and with \<open>new_registration_date\<close> missing, but \<open>re_enrollment_date\<close> is
  set: the test after the loop asks for both dates to be missing, and no fetch of the
  registration URL is made.
\<close>

theorem no_fallback_with_one_date_counterexample:
  "ProgramScraper_init (site_env courses_web) ''http://e.org/'' 2 1 = Some (e_org 2 1)
   \<and> scrape (site_env courses_web) True (e_org 2 1) = Some courses_after_2
   \<and> registration_url courses_after_2 = Some ''http://e.org/b''
   \<and> ''http://e.org/b'' \<notin> visited_urls courses_after_2
   \<and> new_registration_date courses_after_2 = None
   \<and> re_enrollment_date courses_after_2 = Some ''2030-02-01''
   \<and> fallback_fetches (stderr courses_after_2) = []"
  using e_org_init[of courses_web 2 1] courses_scrape
  by (simp add: courses_after_2_def e_org_def)

section \<open>URL normalisation\<close>

text \<open>
  How \<open>_normalize_url\<close> treats a fragment, a trailing slash and its own output.  The
  first lemmas follow \<open>urlsplit\<close> through a URL that is extended by a delimiter and more
  text.
\<close>

lemma takeWhile_stop:
  "\<not> P d \<Longrightarrow> takeWhile P (xs @ d # ys) = takeWhile P xs"
  by (induction xs) auto

lemma dropWhile_stop:
  "\<not> P d \<Longrightarrow> dropWhile P (xs @ d # ys) = dropWhile P xs @ d # ys"
  by (induction xs) auto

lemma takeWhile_all: "\<forall>x\<in>set xs. P x \<Longrightarrow> \<not> P d \<Longrightarrow> takeWhile P (xs @ d # ys) = xs"
  by (induction xs) auto

lemma dropWhile_all: "\<forall>x\<in>set xs. P x \<Longrightarrow> \<not> P d \<Longrightarrow> dropWhile P (xs @ d # ys) = d # ys"
  by (induction xs) auto

lemma code_numeral_chars:
  "code CHR ''#'' = 35" "code CHR ''?'' = 63" "code CHR ''/'' = 47" "code CHR '':'' = 58"
  "code CHR '';'' = 59" "code CHR ''+'' = 43" "code CHR ''-'' = 45" "code CHR ''.'' = 46"
  by (simp_all add: code_Char)

lemma code_inj: "code c = code d \<Longrightarrow> c = d"
  by (simp add: code_def)

lemma scheme_char_code: "scheme_char c \<Longrightarrow> 43 \<le> code c \<and> code c \<le> 122 \<and> code c \<noteq> 47 \<and> code c \<noteq> 58 \<and> code c \<noteq> 63"
  by (auto simp: scheme_char_def is_ascii_alpha_def is_upper_ascii_def is_lower_ascii_def
        is_ascii_digit_def code_numeral_chars)

lemma not_scheme_char_delims:
  "\<not> scheme_char CHR ''#''" "\<not> scheme_char CHR ''?''" "\<not> scheme_char CHR ''/''"
  "\<not> scheme_char CHR '':''"
  using scheme_char_code[of "CHR ''#''"] scheme_char_code[of "CHR ''?''"]
    scheme_char_code[of "CHR ''/''"] scheme_char_code[of "CHR '':''"]
  by (auto simp: code_numeral_chars)

lemma lstrip_c0_append:
  "32 < code d \<Longrightarrow> lstrip_c0 (p @ d # r) = lstrip_c0 p @ d # r"
  by (induction p) (auto simp: lstrip_c0_def)

lemma remove_unsafe_append:
  "remove_unsafe (xs @ ys) = remove_unsafe xs @ remove_unsafe ys"
  by (simp add: remove_unsafe_def)

lemma remove_unsafe_Cons:
  "32 < code d \<Longrightarrow> remove_unsafe (d # r) = d # remove_unsafe r"
  by (auto simp: remove_unsafe_def unsafe_char_def)

lemma remove_unsafe_Nil: "remove_unsafe [] = []"
  by (simp add: remove_unsafe_def)

lemma clean_append:
  "32 < code d \<Longrightarrow>
   remove_unsafe (lstrip_c0 (p @ d # r)) = remove_unsafe (lstrip_c0 p) @ d # remove_unsafe r"
  by (simp add: lstrip_c0_append remove_unsafe_append remove_unsafe_Cons)

lemma split_scheme_append:
  assumes "\<not> scheme_char d" "d \<noteq> CHR '':''"
  shows "split_scheme (U @ d # F) = (fst (split_scheme U), snd (split_scheme U) @ d # F)"
proof (cases "CHR '':'' \<in> set U")
  case True
  then obtain a b where u: "U = a @ CHR '':'' # b" "CHR '':'' \<notin> set a"
    by (meson split_list_first)
  then have "\<forall>x\<in>set a. x \<noteq> CHR '':''" by auto
  with u have t: "takeWhile (\<lambda>c. c \<noteq> CHR '':'') (U @ d # F) = a"
    "takeWhile (\<lambda>c. c \<noteq> CHR '':'') U = a"
    using takeWhile_all[of a "\<lambda>c. c \<noteq> CHR '':''" "CHR '':''"] by simp_all
  show ?thesis
    unfolding split_scheme_def t Let_def using u by (cases a) auto
next
  case False
  then have t: "takeWhile (\<lambda>c. c \<noteq> CHR '':'') U = U" by (auto simp: takeWhile_eq_all_conv)
  from False assms(2) have t2: "takeWhile (\<lambda>c. c \<noteq> CHR '':'') (U @ d # F)
      = U @ d # takeWhile (\<lambda>c. c \<noteq> CHR '':'') F"
    by (induction U) auto
  show ?thesis
    unfolding split_scheme_def t t2 Let_def using assms(1) by simp
qed


lemma split_first_eq:
  "(if c \<in> set s then split_first c s else (s, []))
     = (takeWhile (\<lambda>x. x \<noteq> c) s, drop 1 (dropWhile (\<lambda>x. x \<noteq> c) s))"
proof (cases "c \<in> set s")
  case True
  then show ?thesis by (simp add: split_first_def)
next
  case False
  then have a: "takeWhile (\<lambda>x. x \<noteq> c) s = s" and b: "dropWhile (\<lambda>x. x \<noteq> c) s = []"
    by (induction s) auto
  from False show ?thesis unfolding a b by simp
qed

lemma normalize_url_parts:
  assumes "remove_unsafe (lstrip_c0 u) = U" "split_scheme U = (sch, u1)"
    and "(if take 2 u1 = ''//'' then splitnetloc u1 else ([], u1)) = (nl, u2)"
    and "takeWhile (\<lambda>c. c \<noteq> CHR ''#'') u2 = u3"
    and "takeWhile (\<lambda>c. c \<noteq> CHR ''?'') u3 = p0"
    and "drop 1 (dropWhile (\<lambda>c. c \<noteq> CHR ''?'') u3) = q"
  shows "normalize_url E u =
           (if \<not> netloc_brackets_ok E nl then None
            else Some (sch @ ''://'' @ nl
                       @ rstrip_slash (if sch \<in> set uses_params \<and> CHR '';'' \<in> set p0
                                       then fst (splitparams p0) else p0)
                       @ (if q \<noteq> [] then ''?'' @ q else [])))"
proof -
  have s: "urlsplit E u =
             (if \<not> netloc_brackets_ok E nl then None
              else Some \<lparr>scheme = sch, netloc = nl, path = p0, params = [], query = q,
                         fragment = drop 1 (dropWhile (\<lambda>c. c \<noteq> CHR ''#'') u2)\<rparr>)"
    unfolding urlsplit_def assms(1) Let_def assms(2) prod.case assms(3) split_first_eq
      assms(4) assms(5) assms(6)
    by simp
  show ?thesis
    by (simp add: normalize_url_def urlparse_def s split: prod.splits)
qed


lemma netloc_append:
  assumes "netloc_delim d" "d \<noteq> CHR ''/''"
  shows "(if take 2 (X @ d # F) = ''//'' then splitnetloc (X @ d # F) else ([], X @ d # F))
         = (fst (if take 2 X = ''//'' then splitnetloc X else ([], X)),
            snd (if take 2 X = ''//'' then splitnetloc X else ([], X)) @ d # F)"
proof (cases "2 \<le> length X")
  case True
  then have "take 2 (X @ d # F) = take 2 X" "drop 2 (X @ d # F) = drop 2 X @ d # F"
    by simp_all
  with assms(1) show ?thesis
    by (simp add: splitnetloc_def takeWhile_stop dropWhile_stop)
next
  case False
  then consider "X = []" | x where "X = [x]"
    by (cases X; cases "tl X") auto
  then show ?thesis
    using assms(2) by cases auto
qed

lemma normalize_url_fragment:
  "normalize_url E (u @ ''#'' @ f) = normalize_url E u"
proof -
  define U where "U = remove_unsafe (lstrip_c0 u)"
  define F where "F = remove_unsafe f"
  have c: "remove_unsafe (lstrip_c0 (u @ ''#'' @ f)) = U @ CHR ''#'' # F"
    using clean_append[of "CHR ''#''" u f] by (simp add: code_numeral_chars U_def F_def)
  obtain sch u1 where s: "split_scheme U = (sch, u1)" by (cases "split_scheme U")
  have s': "split_scheme (U @ CHR ''#'' # F) = (sch, u1 @ CHR ''#'' # F)"
    using split_scheme_append[of "CHR ''#''" U F] s by (simp add: not_scheme_char_delims)
  obtain nl u2 where n: "(if take 2 u1 = ''//'' then splitnetloc u1 else ([], u1)) = (nl, u2)"
    by (cases "if take 2 u1 = ''//'' then splitnetloc u1 else ([], u1)")
  have n': "(if take 2 (u1 @ CHR ''#'' # F) = ''//'' then splitnetloc (u1 @ CHR ''#'' # F)
             else ([], u1 @ CHR ''#'' # F)) = (nl, u2 @ CHR ''#'' # F)"
    using netloc_append[of "CHR ''#''" u1 F] n by (simp add: netloc_delim_def)
  have t: "takeWhile (\<lambda>c. c \<noteq> CHR ''#'') (u2 @ CHR ''#'' # F)
             = takeWhile (\<lambda>c. c \<noteq> CHR ''#'') u2"
    by (simp add: takeWhile_stop)
  show ?thesis
    using normalize_url_parts[OF c s' n' t refl refl, of E]
      normalize_url_parts[OF U_def[symmetric] s n refl refl refl, of E]
    by simp
qed


lemma rstrip_slash_snoc: "rstrip_slash (xs @ ''/'') = rstrip_slash xs"
  by (simp add: rstrip_slash_def)

lemma rstrip_slash_simps: "rstrip_slash [] = []" "rstrip_slash ''/'' = []"
  by (simp_all add: rstrip_slash_def)

lemma remove_unsafe_subset: "set (remove_unsafe (lstrip_c0 p)) \<subseteq> set p"
  using set_dropWhileD[of _ "\<lambda>c. code c \<le> 32" p]
  by (auto simp: remove_unsafe_def lstrip_c0_def)

lemma split_scheme_subset: "set (snd (split_scheme U)) \<subseteq> set U"
  using set_drop_subset[of _ U]
  by (auto simp: split_scheme_def Let_def)

lemma netloc_slash:
  assumes x: "\<forall>c\<in>set X. c \<noteq> CHR ''?'' \<and> c \<noteq> CHR ''#''"
    and r: "R = [] \<or> (\<exists>d R0. R = d # R0 \<and> (d = CHR ''?'' \<or> d = CHR ''#''))"
  shows "\<exists>nl Z Z'.
           (if take 2 (X @ CHR ''/'' # R) = ''//'' then splitnetloc (X @ CHR ''/'' # R)
            else ([], X @ CHR ''/'' # R)) = (nl, Z @ R)
         \<and> (if take 2 (X @ R) = ''//'' then splitnetloc (X @ R) else ([], X @ R)) = (nl, Z' @ R)
         \<and> rstrip_slash Z = rstrip_slash Z'
         \<and> set Z \<subseteq> insert CHR ''/'' (set X) \<and> set Z' \<subseteq> insert CHR ''/'' (set X)"
proof -
  have r2: "take 2 R \<noteq> ''//''" "takeWhile (\<lambda>c. \<not> netloc_delim c) R = []"
    "dropWhile (\<lambda>c. \<not> netloc_delim c) R = R" "\<And>x. take 2 (x # R) \<noteq> ''//''"
    using r by (auto simp: netloc_delim_def)
  consider (a) "take 2 X = ''//''" | (b) "X = ''/''" | (c) "take 2 X \<noteq> ''//''" "X \<noteq> ''/''"
    by blast
  then show ?thesis
  proof cases
    case a
    then have l: "2 \<le> length X" by (cases X; cases "tl X") auto
    define Y where "Y = drop 2 X"
    have d: "drop 2 (X @ CHR ''/'' # R) = Y @ CHR ''/'' # R" "drop 2 (X @ R) = Y @ R"
      "take 2 (X @ CHR ''/'' # R) = ''//''" "take 2 (X @ R) = ''//''"
      using l a by (simp_all add: Y_def)
    have y: "set Y \<subseteq> set X" using set_drop_subset[of 2 X] by (simp add: Y_def)
    have t: "takeWhile (\<lambda>c. \<not> netloc_delim c) (Y @ R) = takeWhile (\<lambda>c. \<not> netloc_delim c) Y"
      "dropWhile (\<lambda>c. \<not> netloc_delim c) (Y @ R) = dropWhile (\<lambda>c. \<not> netloc_delim c) Y @ R"
      using r by (auto simp: takeWhile_stop dropWhile_stop netloc_delim_def)
    have z: "set (dropWhile (\<lambda>c. \<not> netloc_delim c) Y) \<subseteq> set X"
      using y set_dropWhileD[of _ "\<lambda>c. \<not> netloc_delim c" Y] by auto
    have sl: "netloc_delim CHR ''/''" by (simp add: netloc_delim_def)
    have A: "(if take 2 (X @ CHR ''/'' # R) = ''//'' then splitnetloc (X @ CHR ''/'' # R)
              else ([], X @ CHR ''/'' # R))
             = (takeWhile (\<lambda>c. \<not> netloc_delim c) Y,
                (dropWhile (\<lambda>c. \<not> netloc_delim c) Y @ ''/'') @ R)"
      unfolding d(3) splitnetloc_def d(1) using sl
      by (simp add: takeWhile_stop dropWhile_stop)
    have B: "(if take 2 (X @ R) = ''//'' then splitnetloc (X @ R) else ([], X @ R))
             = (takeWhile (\<lambda>c. \<not> netloc_delim c) Y, dropWhile (\<lambda>c. \<not> netloc_delim c) Y @ R)"
      unfolding d(4) splitnetloc_def d(2) t by simp
    have C: "rstrip_slash (dropWhile (\<lambda>c. \<not> netloc_delim c) Y @ ''/'')
             = rstrip_slash (dropWhile (\<lambda>c. \<not> netloc_delim c) Y)"
      by (rule rstrip_slash_snoc)
    have D: "set (dropWhile (\<lambda>c. \<not> netloc_delim c) Y @ ''/'') \<subseteq> insert CHR ''/'' (set X)"
      "set (dropWhile (\<lambda>c. \<not> netloc_delim c) Y) \<subseteq> insert CHR ''/'' (set X)"
      using z by auto
    from A B C D show ?thesis by blast
  next
    case b
    have A: "(if take 2 (X @ CHR ''/'' # R) = ''//'' then splitnetloc (X @ CHR ''/'' # R)
              else ([], X @ CHR ''/'' # R)) = ([], [] @ R)"
      by (simp add: b splitnetloc_def r2)
    have B: "(if take 2 (X @ R) = ''//'' then splitnetloc (X @ R) else ([], X @ R))
             = ([], ''/'' @ R)"
      using r2(4)[of "CHR ''/''"] by (simp add: b)
    have C: "rstrip_slash [] = rstrip_slash ''/''" by (simp add: rstrip_slash_simps)
    have D: "set [] \<subseteq> insert CHR ''/'' (set X)" "set ''/'' \<subseteq> insert CHR ''/'' (set X)"
      by auto
    from A B C D show ?thesis by blast
  next
    case c
    then have n: "take 2 (X @ CHR ''/'' # R) \<noteq> ''//''" "take 2 (X @ R) \<noteq> ''//''"
      using r2 by (cases X; cases "tl X"; auto)+
    have A: "(if take 2 (X @ CHR ''/'' # R) = ''//'' then splitnetloc (X @ CHR ''/'' # R)
              else ([], X @ CHR ''/'' # R)) = ([], (X @ ''/'') @ R)"
      using n(1) by simp
    have B: "(if take 2 (X @ R) = ''//'' then splitnetloc (X @ R) else ([], X @ R))
             = ([], X @ R)"
      using n(2) by simp
    have C: "rstrip_slash (X @ ''/'') = rstrip_slash X" by (rule rstrip_slash_snoc)
    have D: "set (X @ ''/'') \<subseteq> insert CHR ''/'' (set X)" "set X \<subseteq> insert CHR ''/'' (set X)"
      by auto
    from A B C D show ?thesis by blast
  qed
qed

lemma path_query_append:
  assumes z: "\<forall>c\<in>set Z. c \<noteq> CHR ''?'' \<and> c \<noteq> CHR ''#''"
    and r: "R = [] \<or> (\<exists>d R0. R = d # R0 \<and> (d = CHR ''?'' \<or> d = CHR ''#''))"
  shows "takeWhile (\<lambda>c. c \<noteq> CHR ''?'') (takeWhile (\<lambda>c. c \<noteq> CHR ''#'') (Z @ R)) = Z"
    and "dropWhile (\<lambda>c. c \<noteq> CHR ''?'') (takeWhile (\<lambda>c. c \<noteq> CHR ''#'') (Z @ R))
         = takeWhile (\<lambda>c. c \<noteq> CHR ''#'') R"
proof -
  have a: "takeWhile (\<lambda>c. c \<noteq> CHR ''#'') (Z @ R) = Z @ takeWhile (\<lambda>c. c \<noteq> CHR ''#'') R"
    using z by (induction Z) auto
  have b: "takeWhile (\<lambda>c. c \<noteq> CHR ''#'') R = []
           \<or> (\<exists>R1. takeWhile (\<lambda>c. c \<noteq> CHR ''#'') R = CHR ''?'' # R1)"
    using r by auto
  from b z show "takeWhile (\<lambda>c. c \<noteq> CHR ''?'') (takeWhile (\<lambda>c. c \<noteq> CHR ''#'') (Z @ R)) = Z"
    unfolding a by (induction Z) auto
  from b z show "dropWhile (\<lambda>c. c \<noteq> CHR ''?'') (takeWhile (\<lambda>c. c \<noteq> CHR ''#'') (Z @ R))
         = takeWhile (\<lambda>c. c \<noteq> CHR ''#'') R"
    unfolding a by (induction Z) auto
qed

lemma normalize_url_trailing_slash:
  assumes p: "CHR ''?'' \<notin> set p" "CHR ''#'' \<notin> set p" "CHR '';'' \<notin> set p"
    and rest: "rest = [] \<or> startswith rest ''?'' \<or> startswith rest ''#''"
  shows "normalize_url E (p @ ''/'' @ rest) = normalize_url E (p @ rest)"
proof -
  define U where "U = remove_unsafe (lstrip_c0 p)"
  define R where "R = remove_unsafe rest"
  have up: "set U \<subseteq> set p" using remove_unsafe_subset[of p] by (simp add: U_def)
  have rest': "rest = [] \<or> (\<exists>d r0. rest = d # r0 \<and> (d = CHR ''?'' \<or> d = CHR ''#''))"
    using rest by (cases rest) (auto simp: startswith_def)
  then have r: "R = [] \<or> (\<exists>d R0. R = d # R0 \<and> (d = CHR ''?'' \<or> d = CHR ''#''))"
    by (auto simp: R_def remove_unsafe_Cons remove_unsafe_Nil code_numeral_chars)
  have ca: "remove_unsafe (lstrip_c0 (p @ ''/'' @ rest)) = U @ CHR ''/'' # R"
    using clean_append[of "CHR ''/''" p rest] by (simp add: code_numeral_chars U_def R_def)
  have cb: "remove_unsafe (lstrip_c0 (p @ rest)) = U @ R"
    using rest' clean_append[of _ p]
    by (auto simp: U_def R_def code_numeral_chars remove_unsafe_Nil remove_unsafe_Cons)
  obtain sch u1 where s: "split_scheme U = (sch, u1)" by (cases "split_scheme U")
  have u1: "set u1 \<subseteq> set p" using split_scheme_subset[of U] s up by auto
  have sa: "split_scheme (U @ CHR ''/'' # R) = (sch, u1 @ CHR ''/'' # R)"
    using split_scheme_append[of "CHR ''/''" U R] s by (simp add: not_scheme_char_delims)
  have sb: "split_scheme (U @ R) = (sch, u1 @ R)"
    using r s split_scheme_append[of _ U] by (auto simp: not_scheme_char_delims)
  have x: "\<forall>c\<in>set u1. c \<noteq> CHR ''?'' \<and> c \<noteq> CHR ''#''" using u1 p by auto
  from netloc_slash[OF x r] obtain nl Z Z' where
    na: "(if take 2 (u1 @ CHR ''/'' # R) = ''//'' then splitnetloc (u1 @ CHR ''/'' # R)
          else ([], u1 @ CHR ''/'' # R)) = (nl, Z @ R)"
    and nb: "(if take 2 (u1 @ R) = ''//'' then splitnetloc (u1 @ R) else ([], u1 @ R)) = (nl, Z' @ R)"
    and rs: "rstrip_slash Z = rstrip_slash Z'"
    and zs: "set Z \<subseteq> insert CHR ''/'' (set u1)" "set Z' \<subseteq> insert CHR ''/'' (set u1)"
    by blast
  have z: "\<forall>c\<in>set Z. c \<noteq> CHR ''?'' \<and> c \<noteq> CHR ''#''" "CHR '';'' \<notin> set Z"
    "\<forall>c\<in>set Z'. c \<noteq> CHR ''?'' \<and> c \<noteq> CHR ''#''" "CHR '';'' \<notin> set Z'"
    using zs u1 p by auto
  show ?thesis
    using normalize_url_parts[OF ca sa na refl path_query_append(1)[OF z(1) r] refl, of E]
      normalize_url_parts[OF cb sb nb refl path_query_append(1)[OF z(3) r] refl, of E]
      z(2,4) rs
    by (simp add: path_query_append(2)[OF z(1) r] path_query_append(2)[OF z(3) r])
qed


lemma code_char_of: "n < 256 \<Longrightarrow> code (char_of n) = n"
  by (simp add: code_def)

lemma lower_scheme_char:
  assumes "scheme_char c"
  shows "scheme_char (lower_char c)" "lower_char (lower_char c) = lower_char c"
    "is_ascii_alpha c \<Longrightarrow> is_ascii_alpha (lower_char c)"
proof -
  from scheme_char_code[OF assms] have b: "code c \<le> 122" by simp
  have l: "lower_char c = (if is_upper_ascii c then char_of (code c + 32) else c)"
    using b by (simp add: lower_char_def)
  have u: "is_upper_ascii c \<Longrightarrow> code (lower_char c) = code c + 32"
    using l by (simp add: code_char_of is_upper_ascii_def)
  have low: "is_upper_ascii c \<Longrightarrow> is_lower_ascii (lower_char c)"
    using u by (simp add: is_lower_ascii_def is_upper_ascii_def)
  show "scheme_char (lower_char c)"
    using assms low l by (cases "is_upper_ascii c") (simp_all add: scheme_char_def is_ascii_alpha_def)
  show "is_ascii_alpha c \<Longrightarrow> is_ascii_alpha (lower_char c)"
    using low l by (cases "is_upper_ascii c") (simp_all add: is_ascii_alpha_def)
  show "lower_char (lower_char c) = lower_char c"
  proof (cases "is_upper_ascii c")
    case True
    from low[OF True] have "\<not> is_upper_ascii (lower_char c)" "code (lower_char c) \<le> 122"
      by (simp_all add: is_lower_ascii_def is_upper_ascii_def)
    then show ?thesis by (simp add: lower_char_def[of "lower_char c"])
  next
    case False
    with l show ?thesis by simp
  qed
qed

lemma rstrip_slash_idem: "rstrip_slash (rstrip_slash s) = rstrip_slash s"
  by (simp add: rstrip_slash_def)

lemma rstrip_slash_prefix: "\<exists>t. s = rstrip_slash s @ t"
proof -
  have "rev (dropWhile (\<lambda>c. c = CHR ''/'') (rev s)) @ rev (takeWhile (\<lambda>c. c = CHR ''/'') (rev s))
        = rev (takeWhile (\<lambda>c. c = CHR ''/'') (rev s) @ dropWhile (\<lambda>c. c = CHR ''/'') (rev s))"
    by (simp only: rev_append)
  also have "\<dots> = rev (rev s)" by (simp only: takeWhile_dropWhile_id)
  also have "\<dots> = s" by simp
  finally have "s = rstrip_slash s @ rev (takeWhile (\<lambda>c. c = CHR ''/'') (rev s))"
    by (simp only: rstrip_slash_def)
  then show ?thesis ..
qed

lemma rstrip_slash_subset: "set (rstrip_slash s) \<subseteq> set s"
  using rstrip_slash_prefix[of s] by (metis Un_upper1 set_append)

lemma rstrip_slash_hd: "rstrip_slash s \<noteq> [] \<Longrightarrow> hd (rstrip_slash s) = hd s"
  using rstrip_slash_prefix[of s] by (metis hd_append2)

lemma splitparams_subset: "set (fst (splitparams p)) \<subseteq> set p"
  using set_take_subset[of _ p] by (auto simp: splitparams_def Let_def)

lemma urlparse_parts:
  assumes "remove_unsafe (lstrip_c0 u) = U" "split_scheme U = (sch, u1)"
    and "(if take 2 u1 = ''//'' then splitnetloc u1 else ([], u1)) = (nl, u2)"
    and "takeWhile (\<lambda>c. c \<noteq> CHR ''#'') u2 = u3"
    and "takeWhile (\<lambda>c. c \<noteq> CHR ''?'') u3 = p0"
    and "drop 1 (dropWhile (\<lambda>c. c \<noteq> CHR ''?'') u3) = q"
    and "urlparse E u = Some r"
  shows "netloc_brackets_ok E nl" "scheme r = sch" "netloc r = nl" "query r = q"
    "path r = (if sch \<in> set uses_params \<and> CHR '';'' \<in> set p0 then fst (splitparams p0) else p0)"
proof -
  have s: "urlsplit E u =
             (if \<not> netloc_brackets_ok E nl then None
              else Some \<lparr>scheme = sch, netloc = nl, path = p0, params = [], query = q,
                         fragment = drop 1 (dropWhile (\<lambda>c. c \<noteq> CHR ''#'') u2)\<rparr>)"
    unfolding urlsplit_def assms(1) Let_def assms(2) prod.case assms(3) split_first_eq
      assms(4) assms(5) assms(6)
    by simp
  from assms(7) show "netloc_brackets_ok E nl"
    by (auto simp: urlparse_def s split: if_splits)
  from assms(7) show "scheme r = sch" "netloc r = nl" "query r = q"
    "path r = (if sch \<in> set uses_params \<and> CHR '';'' \<in> set p0 then fst (splitparams p0) else p0)"
    by (auto simp: urlparse_def s split: if_splits prod.splits)
qed


lemma split_scheme_found:
  assumes "split_scheme U = (sch, u1)" "sch \<noteq> []"
  shows "\<forall>c\<in>set sch. scheme_char c" "py_lower sch = sch" "is_ascii_alpha (hd sch)"
    "set u1 \<subseteq> set U"
proof -
  define pre where "pre = takeWhile (\<lambda>c. c \<noteq> CHR '':'') U"
  from assms have a: "pre \<noteq> []" "is_ascii_alpha (hd U)" "list_all scheme_char pre"
    "sch = py_lower pre" "u1 = drop (Suc (length pre)) U"
    by (auto simp: split_scheme_def Let_def pre_def split: if_splits)
  from a(3) have s: "\<forall>c\<in>set pre. scheme_char c" by (simp add: list_all_iff)
  then show "\<forall>c\<in>set sch. scheme_char c"
    by (auto simp: a(4) py_lower_def lower_scheme_char(1))
  from s show "py_lower sch = sch"
    by (simp add: a(4) py_lower_def lower_scheme_char(2))
  from a(1) have "hd pre = hd U" unfolding pre_def by (cases U) (auto split: if_splits)
  with a(1,2) s show "is_ascii_alpha (hd sch)"
    by (cases pre) (auto simp: a(4) py_lower_def lower_scheme_char(3))
  show "set u1 \<subseteq> set U" using set_drop_subset[of _ U] by (simp add: a(5))
qed

lemma netloc_found:
  assumes "(if take 2 u1 = ''//'' then splitnetloc u1 else ([], u1)) = (nl, u2)"
  shows "\<forall>c\<in>set nl. \<not> netloc_delim c" "set nl \<subseteq> set u1" "set u2 \<subseteq> set u1"
proof -
  have t: "set (takeWhile (\<lambda>c. \<not> netloc_delim c) (drop 2 u1)) \<subseteq> set u1"
    using set_takeWhileD[of _ "\<lambda>c. \<not> netloc_delim c" "drop 2 u1"] set_drop_subset[of 2 u1]
    by auto
  have d: "set (dropWhile (\<lambda>c. \<not> netloc_delim c) (drop 2 u1)) \<subseteq> set u1"
    using set_dropWhileD[of _ "\<lambda>c. \<not> netloc_delim c" "drop 2 u1"] set_drop_subset[of 2 u1]
    by auto
  from assms show "\<forall>c\<in>set nl. \<not> netloc_delim c"
    using set_takeWhileD[of _ "\<lambda>c. \<not> netloc_delim c" "drop 2 u1"]
    by (auto simp: splitnetloc_def split: if_splits)
  from assms t show "set nl \<subseteq> set u1" by (auto simp: splitnetloc_def split: if_splits)
  from assms d show "set u2 \<subseteq> set u1" by (auto simp: splitnetloc_def split: if_splits)
qed

lemma normalize_url_idempotent:
  assumes pr: "urlparse E u = Some r" and sc: "scheme r \<noteq> []"
    and ph: "path r = [] \<or> hd (path r) = CHR ''/''" and sm: "CHR '';'' \<notin> set (path r)"
  shows "\<exists>n. normalize_url E u = Some n \<and> normalize_url E n = Some n"
proof -
  define U where "U = remove_unsafe (lstrip_c0 u)"
  obtain sch u1 where s: "split_scheme U = (sch, u1)" by (cases "split_scheme U")
  obtain nl u2 where n: "(if take 2 u1 = ''//'' then splitnetloc u1 else ([], u1)) = (nl, u2)"
    by (cases "if take 2 u1 = ''//'' then splitnetloc u1 else ([], u1)")
  define u3 where "u3 = takeWhile (\<lambda>c. c \<noteq> CHR ''#'') u2"
  define p0 where "p0 = takeWhile (\<lambda>c. c \<noteq> CHR ''?'') u3"
  define q where "q = drop 1 (dropWhile (\<lambda>c. c \<noteq> CHR ''?'') u3)"
  note pp = urlparse_parts[OF U_def[symmetric] s n u3_def[symmetric] p0_def[symmetric]
      q_def[symmetric] pr]
  define P where "P = rstrip_slash (path r)"
  define qp where "qp = (if q \<noteq> [] then ''?'' @ q else [])"
  define T where "T = P @ qp"
  have norm: "normalize_url E u = Some (sch @ ''://'' @ nl @ T)"
    by (simp add: normalize_url_def pr pp P_def qp_def T_def)
  from sc pp(2) have sne: "sch \<noteq> []" by simp
  note sf = split_scheme_found[OF s sne]
  note nf = netloc_found[OF n]
  have safeU: "\<forall>c\<in>set U. \<not> unsafe_char c" by (simp add: U_def remove_unsafe_def)
  have u3s: "set u3 \<subseteq> set u2" "CHR ''#'' \<notin> set u3"
    using set_takeWhileD[of _ "\<lambda>c. c \<noteq> CHR ''#''" u2] by (auto simp: u3_def)
  have p0s: "set p0 \<subseteq> set u3" "CHR ''?'' \<notin> set p0"
    using set_takeWhileD[of _ "\<lambda>c. c \<noteq> CHR ''?''" u3] by (auto simp: p0_def)
  have qs: "set q \<subseteq> set u3"
    using set_dropWhileD[of _ "\<lambda>c. c \<noteq> CHR ''?''" u3]
      set_drop_subset[of 1 "dropWhile (\<lambda>c. c \<noteq> CHR ''?'') u3"]
    by (auto simp: q_def)
  have pths: "set (path r) \<subseteq> set p0"
    using splitparams_subset[of p0] by (auto simp: pp(5))
  have Ps: "set P \<subseteq> set (path r)" by (simp add: P_def rstrip_slash_subset)
  have inU: "set nl \<subseteq> set U" "set P \<subseteq> set U" "set q \<subseteq> set U"
    using nf sf(4) u3s(1) p0s(1) qs pths Ps by auto
  have Pfree: "CHR ''?'' \<notin> set P" "CHR ''#'' \<notin> set P" "CHR '';'' \<notin> set P"
    using Ps pths p0s u3s sm by auto
  have qfree: "CHR ''#'' \<notin> set q" using qs u3s by auto
  have Phd: "P = [] \<or> hd P = CHR ''/''"
  proof (cases "P = []")
    case False
    then have h: "hd P = hd (path r)" unfolding P_def by (rule rstrip_slash_hd)
    from False have "path r \<noteq> []" by (auto simp: P_def rstrip_slash_simps)
    with ph h show ?thesis by simp
  qed simp
  have Thd: "T = [] \<or> (\<exists>d T'. T = d # T' \<and> netloc_delim d)"
    using Phd by (cases P) (auto simp: T_def qp_def netloc_delim_def)
  have schar: "\<forall>c\<in>set sch. c \<noteq> CHR '':'' \<and> \<not> unsafe_char c \<and> 32 < code c"
  proof
    fix c assume "c \<in> set sch"
    with sf(1) have "scheme_char c" by simp
    from scheme_char_code[OF this]
    show "c \<noteq> CHR '':'' \<and> \<not> unsafe_char c \<and> 32 < code c"
      by (auto simp: unsafe_char_def code_numeral_chars)
  qed
  obtain a as where sch: "sch = a # as" using sne by (cases sch) auto
  have c1: "lstrip_c0 (sch @ ''://'' @ nl @ T) = sch @ ''://'' @ nl @ T"
    using schar by (simp add: sch lstrip_c0_def)
  have punct: "\<not> unsafe_char CHR '':''" "\<not> unsafe_char CHR ''/''" "\<not> unsafe_char CHR ''?''"
    by (simp_all add: unsafe_char_def code_numeral_chars)
  have safeT: "\<forall>c\<in>set T. \<not> unsafe_char c"
    using safeU inU(2,3) punct(3) by (auto simp: T_def qp_def)
  have safenl: "\<forall>c\<in>set nl. \<not> unsafe_char c" using safeU inU(1) by auto
  have safes: "\<forall>c\<in>set sch. \<not> unsafe_char c" using schar by simp
  have c2: "remove_unsafe (lstrip_c0 (sch @ ''://'' @ nl @ T)) = sch @ ''://'' @ nl @ T"
    unfolding c1 remove_unsafe_def using safes safenl safeT punct(1,2) by simp
  have tw: "takeWhile (\<lambda>c. c \<noteq> CHR '':'') (sch @ CHR '':'' # ''//'' @ nl @ T) = sch"
    using schar takeWhile_all[of sch "\<lambda>c. c \<noteq> CHR '':''" "CHR '':''"] by simp
  have c3: "split_scheme (sch @ ''://'' @ nl @ T) = (sch, ''//'' @ nl @ T)"
  proof -
    have "split_scheme (sch @ CHR '':'' # ''//'' @ nl @ T) = (sch, ''//'' @ nl @ T)"
      unfolding split_scheme_def tw Let_def
      using sne sf(1,2,3) by (simp add: list_all_iff sch)
    then show ?thesis by simp
  qed
  have c4: "(if take 2 (''//'' @ nl @ T) = ''//'' then splitnetloc (''//'' @ nl @ T)
             else ([], ''//'' @ nl @ T)) = (nl, T)"
  proof -
    have "takeWhile (\<lambda>c. \<not> netloc_delim c) (nl @ T) = nl
          \<and> dropWhile (\<lambda>c. \<not> netloc_delim c) (nl @ T) = T"
    proof (cases T)
      case Nil
      with nf(1) show ?thesis by simp
    next
      case (Cons d T')
      with Thd have "\<not> \<not> netloc_delim d" by simp
      with nf(1) show ?thesis unfolding Cons
        using takeWhile_all[of nl "\<lambda>c. \<not> netloc_delim c" d T']
          dropWhile_all[of nl "\<lambda>c. \<not> netloc_delim c" d T']
        by blast
    qed
    then show ?thesis by (simp add: splitnetloc_def)
  qed
  have Tfree: "\<forall>c\<in>set T. c \<noteq> CHR ''#''"
    using Pfree(2) qfree by (auto simp: T_def qp_def)
  have c5: "takeWhile (\<lambda>c. c \<noteq> CHR ''#'') T = T"
    using Tfree by (simp add: takeWhile_eq_all_conv)
  have Pq: "\<forall>c\<in>set P. c \<noteq> CHR ''?''" using Pfree(1) by auto
  have c67: "takeWhile (\<lambda>c. c \<noteq> CHR ''?'') T = P
             \<and> drop 1 (dropWhile (\<lambda>c. c \<noteq> CHR ''?'') T) = q"
  proof (cases "q = []")
    case True
    then have t: "T = P" by (simp add: T_def qp_def)
    from Pq have a: "takeWhile (\<lambda>c. c \<noteq> CHR ''?'') P = P"
      and b: "dropWhile (\<lambda>c. c \<noteq> CHR ''?'') P = []"
      by (simp_all add: takeWhile_eq_all_conv)
    show ?thesis unfolding t a b using True by simp
  next
    case False
    then have t: "T = P @ CHR ''?'' # q" by (simp add: T_def qp_def)
    have "takeWhile (\<lambda>c. c \<noteq> CHR ''?'') (P @ CHR ''?'' # q) = P"
      "dropWhile (\<lambda>c. c \<noteq> CHR ''?'') (P @ CHR ''?'' # q) = CHR ''?'' # q"
      using Pq by (simp_all add: takeWhile_all dropWhile_all)
    then show ?thesis unfolding t by simp
  qed
  note c6 = c67[THEN conjunct1] and c7 = c67[THEN conjunct2]
  have "normalize_url E (sch @ ''://'' @ nl @ T) = Some (sch @ ''://'' @ nl @ T)"
    using normalize_url_parts[OF c2 c3 c4 c5 c6 c7, of E] pp(1) Pfree(3)
    by (simp add: P_def rstrip_slash_idem T_def qp_def)
  with norm show ?thesis by simp
qed

text \<open>
  C9, as the code has it.  Normalisation drops the fragment: for every URL \<open>u\<close> and every
  text \<open>f\<close>, \<open>u#f\<close> and \<open>u\<close> have the same normal form.  A slash added at the end of
  the path (before the query or the fragment, if any) does not change the normal form when
  the URL up to there holds no semicolon.  Normalisation returns a fixed point of itself on
  every URL that parses with a scheme, with a path that is empty or starts with a slash
  and holds no semicolon.  It is not idempotent on every string: path parameters
  (\<open>;...\<close> in the last segment) and URLs without a scheme are the exceptions, shown below.
\<close>

theorem normalize_url_stable:
  "(urlparse E u = Some r \<and> scheme r \<noteq> [] \<and> (path r = [] \<or> startswith (path r) ''/'')
      \<and> CHR '';'' \<notin> set (path r)
    \<longrightarrow> (\<exists>n. normalize_url E u = Some n \<and> normalize_url E n = Some n))
   \<and> normalize_url E (u @ ''#'' @ f) = normalize_url E u
   \<and> (CHR ''?'' \<notin> set p \<and> CHR ''#'' \<notin> set p \<and> CHR '';'' \<notin> set p
        \<and> (rest = [] \<or> startswith rest ''?'' \<or> startswith rest ''#'')
      \<longrightarrow> normalize_url E (p @ ''/'' @ rest) = normalize_url E (p @ rest))"
proof -
  have "\<exists>n. normalize_url E u = Some n \<and> normalize_url E n = Some n"
    if a: "urlparse E u = Some r" "scheme r \<noteq> []" "path r = [] \<or> startswith (path r) ''/''"
      "CHR '';'' \<notin> set (path r)"
  proof -
    from a(3) have "path r = [] \<or> hd (path r) = CHR ''/''"
      by (cases "path r") (auto simp: startswith_def)
    from normalize_url_idempotent[OF a(1,2) this a(4)] show ?thesis .
  qed
  with normalize_url_fragment[of E u f] normalize_url_trailing_slash[of p rest E]
  show ?thesis by blast
qed

theorem normalize_url_stable_witness:
  "urlparse (site_env no_web) ''http://e.org/''
     = Some \<lparr>scheme = ''http'', netloc = ''e.org'', path = ''/'', params = [], query = [],
              fragment = []\<rparr>
   \<and> normalize_url (site_env no_web) ''http://e.org/'' = Some ''http://e.org''
   \<and> normalize_url (site_env no_web) ''http://e.org'' = Some ''http://e.org''
   \<and> normalize_url (site_env no_web) ''http://e.org/#top'' = Some ''http://e.org''
   \<and> normalize_url (site_env no_web) ''http://e.org/?x=1''
       = normalize_url (site_env no_web) ''http://e.org?x=1''"
  using normalize_url_stable[where E = "site_env no_web" and u = "''http://e.org/''"
          and r = "\<lparr>scheme = ''http'', netloc = ''e.org'', path = ''/'', params = [],
                     query = [], fragment = []\<rparr>"
          and f = "''top''" and p = "''http://e.org''" and rest = "''?x=1''"]
        e_org_parse[of no_web] e_org_norm[of no_web]
  by (simp add: startswith_def)

text \<open>
  C9 as stated fails.  \<open>urlparse\<close> moves \<open>;p\<close> out of the path when it stands in the last
  segment, and \<open>_normalize_url\<close> does not write parameters back: \<open>http://a.com/x;p/\<close>
  normalises to \<open>http://a.com/x;p\<close>, which normalises to \<open>http://a.com/x\<close>; so the
  normal form is not a fixed point, and the two URLs, which differ only by the trailing
  slash, have different normal forms.  A URL without a scheme grows by \<open>://\<close> at each
  pass.
\<close>

theorem normalize_url_not_idempotent_counterexample:
  "normalize_url (site_env no_web) ''http://a.com/x;p/'' = Some ''http://a.com/x;p''
   \<and> normalize_url (site_env no_web) ''http://a.com/x;p'' = Some ''http://a.com/x''
   \<and> normalize_url (site_env no_web) ''/about'' = Some '':///about''
   \<and> normalize_url (site_env no_web) '':///about'' = Some ''://:///about''"
  by (simp add: url_eval char_eval Let_def site_env_def)

end
